theory Spec2Isabelle
  imports Main "HOL-Library.AList"
begin

section \<open>Python values, dictionaries and errors\<close>

text \<open>
  The representation engine of \<^verbatim>\<open>modules/s3/s3fields.py\<close> (classes
  \<^verbatim>\<open>S3Represent\<close> and \<^verbatim>\<open>S3RepresentLazy\<close>) works on dynamically typed values.
  \<open>pval\<close> holds the values to represent and the field values of rows: \<^verbatim>\<open>None\<close>,
  integers (record ids), strings and lists (list-type fields). \<open>label\<close> holds the
  representations: \<^verbatim>\<open>None\<close>, strings, the lazily translated strings of
  \<^verbatim>\<open>gluon.languages.lazyT\<close>, and the two HTML helpers the class builds,
  \<^verbatim>\<open>A(v, _href=url)\<close> and \<^verbatim>\<open>TAG[""](components)\<close>.
\<close>

datatype pval =
    PNone
  | PInt int
  | PStr string
  | PList "pval list"

datatype label =
    LNone
  | LStr string
  | LLazyT string
  | HtmlA label string
  | HtmlTAG "label list"

text \<open>Truth value of a Python object, as \<^verbatim>\<open>if value:\<close> tests it.\<close>

fun truthy :: "pval \<Rightarrow> bool" where
  "truthy PNone = False"
| "truthy (PInt n) = (n \<noteq> 0)"
| "truthy (PStr s) = (s \<noteq> [])"
| "truthy (PList xs) = (xs \<noteq> [])"

fun label_truthy :: "label \<Rightarrow> bool" where
  "label_truthy LNone = False"
| "label_truthy (LStr s) = (s \<noteq> [])"
| "label_truthy (LLazyT s) = (s \<noteq> [])"
| "label_truthy (HtmlA v href) = True"
| "label_truthy (HtmlTAG xs) = True"

text \<open>A list cannot be a dictionary key or a set element: Python raises TypeError.\<close>

fun hashable :: "pval \<Rightarrow> bool" where
  "hashable PNone = True"
| "hashable (PInt n) = True"
| "hashable (PStr s) = True"
| "hashable (PList xs) = False"

fun is_lazyT :: "label \<Rightarrow> bool" where
  "is_lazyT (LLazyT s) = True"
| "is_lazyT v = False"

text \<open>
  The exceptions that leave the class. \<open>RuntimeError\<close> is Python's "maximum recursion
  depth exceeded". \<open>NotModelled\<close> marks a \<^verbatim>\<open>%\<close> conversion other than \<^verbatim>\<open>%s\<close> and
  \<^verbatim>\<open>%%\<close>, which this development does not interpret.
\<close>

datatype error = ValueError | TypeError | KeyError | RuntimeError | NotModelled

text \<open>
  A dictionary is an association list with distinct keys; \<open>AList.update\<close> overwrites in
  place or appends, so iteration follows insertion order. A row of the database maps
  field names to values.
\<close>

type_synonym 'v pdict = "(pval \<times> 'v) list"
type_synonym row = "(string \<times> pval) list"

definition row_get :: "row \<Rightarrow> string \<Rightarrow> error + pval" where
  "row_get row f = (case map_of row f of None \<Rightarrow> Inl KeyError | Some v \<Rightarrow> Inr v)"

text \<open>A Row is true when it has at least one field.\<close>

definition row_truthy :: "row option \<Rightarrow> bool" where
  "row_truthy row = (case row of None \<Rightarrow> False | Some rw \<Rightarrow> rw \<noteq> [])"

subsection \<open>String helpers of the Python library\<close>

fun join :: "string \<Rightarrow> string list \<Rightarrow> string" where
  "join sep [] = []"
| "join sep [s] = s"
| "join sep (s # t # ss) = s @ sep @ join sep (t # ss)"

text \<open>\<^verbatim>\<open>s.replace(old, new)\<close> for a non-empty \<open>old\<close> (the class only passes literals).\<close>

function py_replace :: "string \<Rightarrow> string \<Rightarrow> string \<Rightarrow> string" where
  "py_replace old new [] = []"
| "py_replace old new (c # cs) =
     (if old \<noteq> [] \<and> take (length old) (c # cs) = old
      then new @ py_replace old new (drop (length old) (c # cs))
      else c # py_replace old new cs)"
  by pat_completeness auto
termination
  by (relation "measure (\<lambda>(old, new, s). length s)") (auto simp: Suc_le_eq)

text \<open>\<^verbatim>\<open>tablename.split("_", 1)\<close> unpacked into two names: fails without an underscore.\<close>

definition split_tablename :: "string \<Rightarrow> (string \<times> string) option" where
  "split_tablename tn =
     (if CHR ''_'' \<in> set tn
      then Some (takeWhile (\<lambda>c. c \<noteq> CHR ''_'') tn, tl (dropWhile (\<lambda>c. c \<noteq> CHR ''_'') tn))
      else None)"

text \<open>
  \<^verbatim>\<open>template % args\<close> with the arguments already converted to strings: \<^verbatim>\<open>%s\<close> takes the
  next argument, \<^verbatim>\<open>%%\<close> is a percent sign. Too few or too many arguments are a TypeError,
  a trailing \<^verbatim>\<open>%\<close> a ValueError.
\<close>

fun py_format :: "string \<Rightarrow> string list \<Rightarrow> error + string" where
  "py_format [] args = (if args = [] then Inr [] else Inl TypeError)"
| "py_format [c] args =
     (if c = CHR ''%'' then Inl ValueError
      else if args = [] then Inr [c] else Inl TypeError)"
| "py_format (c # d # cs) args =
     (if c \<noteq> CHR ''%''
      then (case py_format (d # cs) args of Inl err \<Rightarrow> Inl err | Inr s \<Rightarrow> Inr (c # s))
      else if d = CHR ''%''
      then (case py_format cs args of Inl err \<Rightarrow> Inl err | Inr s \<Rightarrow> Inr (CHR ''%'' # s))
      else if d = CHR ''s''
      then (case args of
              [] \<Rightarrow> Inl TypeError
            | a # as \<Rightarrow> (case py_format cs as of Inl err \<Rightarrow> Inl err | Inr s \<Rightarrow> Inr (a @ s)))
      else Inl NotModelled)"

text \<open>
  \<^verbatim>\<open>int(s)\<close> on a string: surrounding whitespace is dropped, one sign is allowed, the
  rest must be decimal digits. \<open>None\<close> is the ValueError that \<^verbatim>\<open>_lookup\<close> catches.
\<close>

definition is_space :: "char \<Rightarrow> bool" where
  "is_space c = (c \<in> {CHR '' '', CHR 0x09, CHR 0x0A, CHR 0x0B, CHR 0x0C, CHR 0x0D})"

definition is_digit :: "char \<Rightarrow> bool" where
  "is_digit c = (48 \<le> (of_char c :: nat) \<and> (of_char c :: nat) \<le> 57)"

definition digits_val :: "string \<Rightarrow> int option" where
  "digits_val s =
     (if s \<noteq> [] \<and> list_all is_digit s
      then Some (foldl (\<lambda>acc c. 10 * acc + (int (of_char c) - 48)) 0 s)
      else None)"

definition strip :: "string \<Rightarrow> string" where
  "strip s = rev (dropWhile is_space (rev (dropWhile is_space s)))"

text \<open>The decimal numeral of an integer, as \<^verbatim>\<open>str\<close> prints it.\<close>

fun str_nat :: "nat \<Rightarrow> string" where
  "str_nat n =
     (if n < 10 then [char_of (48 + n)]
      else str_nat (n div 10) @ [char_of (48 + n mod 10)])"

declare str_nat.simps [simp del]

definition str_int :: "int \<Rightarrow> string" where
  "str_int i = (if i < 0 then CHR ''-'' # str_nat (nat (- i)) else str_nat (nat i))"

definition py_int :: "string \<Rightarrow> int option" where
  "py_int s =
     (case strip s of
        [] \<Rightarrow> None
      | c # cs \<Rightarrow>
          if c = CHR ''-'' then map_option uminus (digits_val cs)
          else if c = CHR ''+'' then digits_val cs
          else digits_val (c # cs))"

section \<open>Collaborators\<close>

text \<open>
  A table of the data model: its name (\<^verbatim>\<open>table._tablename\<close>), its field names
  (\<^verbatim>\<open>"name" in table\<close>, \<^verbatim>\<open>object.__getattribute__(table, f)\<close>) and the name of its
  primary key (\<^verbatim>\<open>table._id.name\<close>).
\<close>

record table =
  tname :: string
  tfields :: "string list"
  tid :: string

text \<open>
  Modelled from the spec: the class \<^verbatim>\<open>S3Hierarchy\<close> (module s3hierarchy) is not part of
  the sources. The spec gives its contract as \<^verbatim>\<open>hasConfig(tableId) -> bool\<close> and
  \<^verbatim>\<open>parentOf(key) -> LookupKey|None\<close> over a finite forest; a key is an integer or a
  string.
\<close>

record S3Hierarchy =
  config :: bool
  nodes :: "pval pdict"

definition is_key :: "pval \<Rightarrow> bool" where
  "is_key v = (case v of PInt n \<Rightarrow> True | PStr s \<Rightarrow> True | _ \<Rightarrow> False)"

definition parent :: "S3Hierarchy \<Rightarrow> pval \<Rightarrow> pval" where
  "parent h node_id =
     (case map_of (nodes h) node_id of
        None \<Rightarrow> PNone
      | Some p \<Rightarrow> if is_key p then p else PNone)"

text \<open>
  What the module reads from its surroundings: \<^verbatim>\<open>current.messages\<close>,
  \<^verbatim>\<open>current.s3db.table\<close>, the rows of each table behind \<^verbatim>\<open>current.db\<close>, the
  translator \<^verbatim>\<open>current.T\<close>, the constructor \<^verbatim>\<open>S3Hierarchy(tablename)\<close>, the helper
  \<^verbatim>\<open>URL(c=c, f=f, args=["[id]"])\<close>, the text Python prints for a list (\<open>py_repr\<close>) and
  for an HTML helper (\<open>xml\<close>), and the depth Python leaves to the recursion of
  \<^verbatim>\<open>_represent_path\<close>.
\<close>

record env =
  messages_UNKNOWN_OPT :: label
  messages_NONE :: label
  s3db_table :: "string \<Rightarrow> table option"
  current_db :: "string \<Rightarrow> row list"
  current_T :: "label \<Rightarrow> label"
  new_S3Hierarchy :: "string \<Rightarrow> S3Hierarchy"
  py_repr :: "pval \<Rightarrow> string"
  xml :: "label \<Rightarrow> string"
  URL :: "string \<Rightarrow> string \<Rightarrow> string"
  recursion_limit :: nat

text \<open>
  \<^verbatim>\<open>s3_unicode\<close> (imported from s3utils) turns a value into a unicode string: a string
  is itself, an integer its decimal numeral, a lazyT its translation.
\<close>

definition s3_unicode :: "env \<Rightarrow> pval \<Rightarrow> string" where
  "s3_unicode e v =
     (case v of
        PNone \<Rightarrow> ''None''
      | PInt n \<Rightarrow> str_int n
      | PStr s \<Rightarrow> s
      | PList xs \<Rightarrow> py_repr e v)"

definition s3_unicode_label :: "env \<Rightarrow> label \<Rightarrow> string" where
  "s3_unicode_label e l =
     (case l of
        LNone \<Rightarrow> ''None''
      | LStr s \<Rightarrow> s
      | LLazyT s \<Rightarrow> s
      | HtmlA v href \<Rightarrow> xml e l
      | HtmlTAG xs \<Rightarrow> xml e l)"

section \<open>The representer\<close>

text \<open>
  The \<^verbatim>\<open>labels\<close> parameter: absent, a string template (\<^verbatim>\<open>labels % row\<close>, kept as the
  function of the row it denotes) or a callable.
\<close>

datatype labels = NoLabels | Template "row \<Rightarrow> error + label" | Renderer "row \<Rightarrow> error + label"

text \<open>The \<^verbatim>\<open>hierarchy\<close> parameter: a boolean or a string template.\<close>

datatype hier = HBool bool | HTemplate string

fun hier_truthy :: "hier \<Rightarrow> bool" where
  "hier_truthy (HBool b) = b"
| "hier_truthy (HTemplate s) = (s \<noteq> [])"

text \<open>
  Calls that leave the instance are recorded in \<open>trace\<close>, which is not an attribute of
  the class: \<open>LookupRows vs\<close> for \<^verbatim>\<open>self.lookup_rows(key, vs, fields=...)\<close> and
  \<open>Bulk vs\<close> for \<^verbatim>\<open>renderer.bulk(vs)\<close>.
\<close>

datatype event = LookupRows "pval list" | Bulk pval

text \<open>
  The attributes of an \<^verbatim>\<open>S3Represent\<close> instance. \<^verbatim>\<open>fields = None\<close> and \<^verbatim>\<open>fields = []\<close>
  are both \<open>fields_list = []\<close> (\<^verbatim>\<open>_setup\<close> treats them alike); \<^verbatim>\<open>theset\<close> is \<open>[]\<close> until \<^verbatim>\<open>_setup\<close>
  initialises it, which every entry point does first. \<open>lookup_rows\<close> is the method a
  subclass may define; it is consulted only when \<open>custom_lookup\<close> holds.
\<close>

record S3Represent =
  tablename :: "string option"
  table :: "table option"
  key :: "string option"
  fields_list :: "string list"
  labels :: labels
  options :: "label pdict option"
  list_type :: bool
  hierarchy :: hier
  translate :: bool
  linkto :: "string option"
  show_link :: bool
  default_repr :: label
  none :: label
  field_sep :: string
  setup_done :: bool
  theset :: "label pdict"
  queries :: nat
  lazy :: "pval list"
  lazy_show_link :: bool
  rows :: "row pdict"
  custom_lookup :: bool
  lookup_rows :: "string \<Rightarrow> pval list \<Rightarrow> error + row list"
  slabels :: bool
  clabels :: bool
  htemplate :: string
  trace :: "event list"

text \<open>\<^verbatim>\<open>S3Represent.__init__\<close> of the base class (no \<^verbatim>\<open>lookup_rows\<close> method defined).\<close>

definition init :: "string option \<Rightarrow> string option \<Rightarrow> string list \<Rightarrow> labels \<Rightarrow>
    label pdict option \<Rightarrow> bool \<Rightarrow> string option \<Rightarrow> bool \<Rightarrow> bool \<Rightarrow> hier \<Rightarrow> label \<Rightarrow> label \<Rightarrow>
    string \<Rightarrow> S3Represent" where
  "init lookup_p key_p fields_p labels_p options_p translate_p linkto_p show_link_p
        multiple_p hierarchy_p default_p none_p field_sep_p =
     \<lparr> tablename = lookup_p, table = None, key = key_p, fields_list = fields_p,
       labels = labels_p, options = options_p, list_type = multiple_p,
       hierarchy = hierarchy_p, translate = translate_p, linkto = linkto_p,
       show_link = show_link_p, default_repr = default_p, none = none_p,
       field_sep = field_sep_p, setup_done = False, theset = [], queries = 0,
       lazy = [], lazy_show_link = False, rows = [], custom_lookup = False,
       lookup_rows = (\<lambda>k vs. Inr []), slabels = False, clabels = False,
       htemplate = [], trace = [] \<rparr>"

subsection \<open>\<^verbatim>\<open>represent_row\<close> and \<^verbatim>\<open>link\<close>\<close>

text \<open>\<^verbatim>\<open>[row[f] for f in self.fields if row[f] not in (None, "")]\<close>\<close>

fun field_values :: "row \<Rightarrow> string list \<Rightarrow> error + pval list" where
  "field_values row [] = Inr []"
| "field_values row (f # fs) =
     (case row_get row f of
        Inl err \<Rightarrow> Inl err
      | Inr v \<Rightarrow>
          (case field_values row fs of
             Inl err \<Rightarrow> Inl err
           | Inr vs \<Rightarrow> Inr (if v \<noteq> PNone \<and> v \<noteq> PStr [] then v # vs else vs)))"

definition represent_row :: "env \<Rightarrow> S3Represent \<Rightarrow> row \<Rightarrow> label option \<Rightarrow> error + label" where
  "represent_row e r row prefix =
     (case (if slabels r
            then (case labels r of Template f \<Rightarrow> f row | _ \<Rightarrow> Inl TypeError)
            else if clabels r
            then (case labels r of Renderer f \<Rightarrow> f row | _ \<Rightarrow> Inl TypeError)
            else (case field_values row (fields_list r) of
                    Inl err \<Rightarrow> Inl err
                  | Inr vs \<Rightarrow>
                      Inr (if vs \<noteq> []
                           then LStr (join (field_sep r) (map (s3_unicode e) vs))
                           else none r)))
      of
        Inl err \<Rightarrow> Inl err
      | Inr v \<Rightarrow>
          (let output = (if translate r \<and> \<not> is_lazyT v then current_T e v else v)
           in case prefix of
                None \<Rightarrow> Inr output
              | Some p \<Rightarrow>
                  if label_truthy p \<and> hier_truthy (hierarchy r)
                  then (case py_format (htemplate r)
                               [s3_unicode_label e p, s3_unicode_label e output] of
                          Inl err \<Rightarrow> Inl err
                        | Inr s \<Rightarrow> Inr (LStr s))
                  else Inr output))"

definition link :: "env \<Rightarrow> S3Represent \<Rightarrow> pval \<Rightarrow> label \<Rightarrow> row option \<Rightarrow> label" where
  "link e r k v row =
     (case linkto r of
        None \<Rightarrow> v
      | Some l \<Rightarrow>
          if l \<noteq> []
          then (let ks = s3_unicode e k
                in HtmlA v (py_replace ''%5Bid%5D'' ks (py_replace ''[id]'' ks l)))
          else v)"

subsection \<open>\<^verbatim>\<open>_setup\<close>\<close>

text \<open>
  The block "Lookup table parameters and linkto". It raises ValueError when the table
  name has no underscore to unpack controller and function from.
\<close>

definition setup_table :: "env \<Rightarrow> S3Represent \<Rightarrow> (error + unit) \<times> S3Represent" where
  "setup_table e r =
     (if table r = None
      then (case tablename r of
              None \<Rightarrow> (Inr (), r)
            | Some tn \<Rightarrow>
                if tn = [] then (Inr (), r)
                else
                  (let r1 = (case s3db_table e tn of
                               None \<Rightarrow> r
                             | Some t \<Rightarrow>
                                 (let k = (case key r of None \<Rightarrow> tid t | Some k0 \<Rightarrow> k0)
                                  in r\<lparr> key := Some k,
                                        fields_list := (if fields_list r = []
                                                   then (if ''name'' \<in> set (tfields t)
                                                         then [''name''] else [k])
                                                   else fields_list r),
                                        table := Some t \<rparr>))
                   in if linkto r1 = None \<and> show_link r1
                      then (case split_tablename tn of
                              None \<Rightarrow> (Inl ValueError, r1)
                            | Some (c, f) \<Rightarrow> (Inr (), r1\<lparr> linkto := Some (URL e c f) \<rparr>))
                      else (Inr (), r1)))
      else (Inr (), r))"

text \<open>The blocks "Default representations" and "Initialize theset".\<close>

definition setup_defaults :: "env \<Rightarrow> S3Represent \<Rightarrow> S3Represent" where
  "setup_defaults e r =
     r\<lparr> queries := 0,
        default_repr := (if default_repr r = LNone
                         then LStr (s3_unicode_label e (messages_UNKNOWN_OPT e))
                         else default_repr r),
        none := (if none r = LNone then messages_NONE e else none r),
        theset := (case options r of Some opts \<Rightarrow> opts | None \<Rightarrow> []) \<rparr>"

text \<open>The blocks "What type of renderer do we use?" and "Hierarchy template".\<close>

definition setup_renderer :: "S3Represent \<Rightarrow> S3Represent" where
  "setup_renderer r =
     r\<lparr> slabels := (case labels r of Template f \<Rightarrow> True | _ \<Rightarrow> False),
        clabels := (case labels r of Renderer f \<Rightarrow> True | _ \<Rightarrow> False),
        htemplate := (case hierarchy r of HTemplate s \<Rightarrow> s | HBool b \<Rightarrow> ''%s > %s''),
        setup_done := True \<rparr>"

definition S3_setup :: "env \<Rightarrow> S3Represent \<Rightarrow> (error + unit) \<times> S3Represent" where
  "S3_setup e r =
     (if setup_done r then (Inr (), r)
      else (case setup_table e (setup_defaults e r) of
              (Inl err, r1) \<Rightarrow> (Inl err, r1)
            | (Inr u, r1) \<Rightarrow> (Inr (), setup_renderer r1)))"

subsection \<open>\<^verbatim>\<open>_lookup_rows\<close> and the call of \<^verbatim>\<open>self.lookup_rows\<close>\<close>

text \<open>
  The default fetch: \<^verbatim>\<open>current.db(query).select(*fields)\<close> with the key appended to the
  fields, the query being \<^verbatim>\<open>key == values[0]\<close> for one value and \<^verbatim>\<open>key.belongs(values)\<close>
  otherwise. The rows that come back hold the selected fields only. Values are compared
  as they are, so a string that \<^verbatim>\<open>_lookup\<close> could not turn into an integer matches no
  integer key; how the database layer, which is not part of the sources, treats such a
  query is left open.
\<close>

definition select_fields :: "string list \<Rightarrow> row \<Rightarrow> row" where
  "select_fields fs row = filter (\<lambda>(f, v). f \<in> set fs) row"

definition S3_lookup_rows ::
    "env \<Rightarrow> S3Represent \<Rightarrow> table \<Rightarrow> string \<Rightarrow> pval list \<Rightarrow> string list \<Rightarrow>
     (error + row list) \<times> S3Represent" where
  "S3_lookup_rows e r t k vs fs =
     (let fs1 = fs @ [k];
          query = (\<lambda>row. case map_of row k of
                            None \<Rightarrow> False
                          | Some kv \<Rightarrow> if length vs = 1 then kv = hd vs else kv \<in> set vs);
          selected = map (select_fields fs1) (filter query (current_db e (tname t)))
      in (Inr selected, r\<lparr> queries := queries r + 1 \<rparr>))"

definition call_lookup_rows ::
    "env \<Rightarrow> S3Represent \<Rightarrow> table \<Rightarrow> string \<Rightarrow> pval list \<Rightarrow> string list \<Rightarrow>
     (error + row list) \<times> S3Represent" where
  "call_lookup_rows e r t k vs fs =
     (let r1 = r\<lparr> trace := trace r @ [LookupRows vs] \<rparr>
      in if custom_lookup r then (lookup_rows r k vs, r1)
         else S3_lookup_rows e r1 t k vs fs)"

subsection \<open>\<^verbatim>\<open>_represent_path\<close>\<close>

text \<open>
  The recursion follows the parents that are among the fetched rows and not yet in
  \<^verbatim>\<open>theset\<close>. Nothing in the source bounds it, so the first argument is the depth
  Python still allows; at depth \<open>0\<close> the call raises RuntimeError.
\<close>

fun S3_represent_path ::
    "nat \<Rightarrow> env \<Rightarrow> S3Hierarchy \<Rightarrow> row pdict \<Rightarrow> pval \<Rightarrow> row \<Rightarrow> S3Represent \<Rightarrow>
     (error + label) \<times> S3Represent" where
  "S3_represent_path 0 e h rws v row r = (Inl RuntimeError, r)"
| "S3_represent_path (Suc n) e h rws v row r =
     (case map_of (theset r) v of
        Some l \<Rightarrow> (Inr l, r)
      | None \<Rightarrow>
          (let p = parent h v
           in case (if truthy p
                    then (case map_of (theset r) p of
                            Some l \<Rightarrow> (Inr (Some l), r)
                          | None \<Rightarrow>
                              (case map_of rws p of
                                 Some prow \<Rightarrow>
                                   (case S3_represent_path n e h rws p prow r of
                                      (Inl err, r1) \<Rightarrow> (Inl err, r1)
                                    | (Inr l, r1) \<Rightarrow> (Inr (Some l), r1))
                               | None \<Rightarrow> (Inr None, r)))
                    else (Inr None, r))
              of
                (Inl err, r1) \<Rightarrow> (Inl err, r1)
              | (Inr prefix, r1) \<Rightarrow>
                  (case represent_row e r1 row prefix of
                     Inl err \<Rightarrow> (Inl err, r1)
                   | Inr result \<Rightarrow>
                       (Inr result, r1\<lparr> theset := AList.update v result (theset r1) \<rparr>))))"

subsection \<open>\<^verbatim>\<open>_lookup\<close>\<close>

text \<open>A string is turned into an integer when a table is configured and \<^verbatim>\<open>int\<close> accepts it.\<close>

definition normalise :: "table option \<Rightarrow> pval \<Rightarrow> pval" where
  "normalise tbl v =
     (case v of
        PStr s \<Rightarrow> (if tbl \<noteq> None then (case py_int s of Some n \<Rightarrow> PInt n | None \<Rightarrow> v) else v)
      | _ \<Rightarrow> v)"

text \<open>\<^verbatim>\<open>keys.get(k, k)\<close>\<close>

definition keys_get :: "pval pdict \<Rightarrow> pval \<Rightarrow> pval" where
  "keys_get keys k = (case map_of keys k of Some v0 \<Rightarrow> v0 | None \<Rightarrow> k)"

text \<open>
  The loop "Check whether values are already in theset", on the triple
  \<^verbatim>\<open>(keys, items, lookup)\<close>.
\<close>

fun check_values ::
    "S3Represent \<Rightarrow> pval list \<Rightarrow> pval pdict \<times> label pdict \<times> bool pdict \<Rightarrow>
     error + (pval pdict \<times> label pdict \<times> bool pdict)" where
  "check_values r [] acc = Inr acc"
| "check_values r (v0 # vs) (keys, items, lookup) =
     (let v = normalise (table r) v0
      in if \<not> hashable v then Inl TypeError
         else if v = PNone
         then check_values r vs (AList.update v v0 keys, AList.update v0 (none r) items, lookup)
         else (case map_of (theset r) v of
                 Some l \<Rightarrow>
                   check_values r vs (AList.update v v0 keys, AList.update v0 l items, lookup)
               | None \<Rightarrow>
                   check_values r vs (AList.update v v0 keys, items, AList.update v True lookup)))"

text \<open>The local function \<^verbatim>\<open>lookup_parent\<close>: enqueue the ancestors that are not known yet.\<close>

lemma parent_in_nodes: "truthy (parent h n) \<Longrightarrow> parent h n \<in> snd ` set (nodes h)"
  by (auto simp: parent_def image_iff split: option.splits if_splits dest!: map_of_SomeD)
    (metis snd_conv)

function lookup_parent :: "S3Hierarchy \<Rightarrow> label pdict \<Rightarrow> pval \<Rightarrow> bool pdict \<Rightarrow> bool pdict" where
  "lookup_parent h ts node_id lookup =
     (let p = parent h node_id
      in if truthy p \<and> map_of ts p = None \<and> map_of lookup p = None
         then lookup_parent h ts p (AList.update p False lookup)
         else lookup)"
  by pat_completeness auto
termination
proof (relation "measure (\<lambda>(h, ts, node_id, lookup). card (snd ` set (nodes h) - fst ` set lookup))")
  show "wf (measure (\<lambda>(h, ts, node_id, lookup). card (snd ` set (nodes h) - fst ` set lookup)))"
    by simp
next
  fix h :: S3Hierarchy and ts :: "label pdict" and node_id :: pval and lookup :: "bool pdict"
    and x :: pval
  assume x: "x = parent h node_id"
    and c: "truthy x \<and> map_of ts x = None \<and> map_of lookup x = None"
  have a: "x \<in> snd ` set (nodes h)"
    using x c parent_in_nodes by blast
  have b: "x \<notin> fst ` set lookup"
    using c by (simp add: map_of_eq_None_iff)
  have d: "fst ` set (AList.update x False lookup) = insert x (fst ` set lookup)"
    using dom_update [of x False lookup] by (simp add: dom_map_of_conv_image_fst)
  have "snd ` set (nodes h) - fst ` set (AList.update x False lookup)
        \<subset> snd ` set (nodes h) - fst ` set lookup"
    using a b d by auto
  then have "card (snd ` set (nodes h) - fst ` set (AList.update x False lookup))
             < card (snd ` set (nodes h) - fst ` set lookup)"
    by (intro psubset_card_mono) auto
  then show "((h, ts, x, AList.update x False lookup), (h, ts, node_id, lookup))
             \<in> measure (\<lambda>(h, ts, node_id, lookup). card (snd ` set (nodes h) - fst ` set lookup))"
    by simp
qed

declare lookup_parent.simps [simp del]

text \<open>\<^verbatim>\<open>dict((row[key], row) for row in rows)\<close>\<close>

fun rows_dict :: "string \<Rightarrow> row list \<Rightarrow> row pdict \<Rightarrow> error + row pdict" where
  "rows_dict k [] acc = Inr acc"
| "rows_dict k (row # rs) acc =
     (case row_get row k of
        Inl err \<Rightarrow> Inl err
      | Inr kv \<Rightarrow>
          if \<not> hashable kv then Inl TypeError
          else rows_dict k rs (AList.update kv row acc))"

text \<open>The loop "Use the given rows to lookup the values".\<close>

fun use_rows ::
    "env \<Rightarrow> string \<Rightarrow> pval pdict \<Rightarrow> row list \<Rightarrow> label pdict \<times> bool pdict \<Rightarrow> S3Represent \<Rightarrow>
     (error + (label pdict \<times> bool pdict)) \<times> S3Represent" where
  "use_rows e k keys [] acc r = (Inr acc, r)"
| "use_rows e k keys (row # rs) (items, lookup) r =
     (case row_get row k of
        Inl err \<Rightarrow> (Inl err, r)
      | Inr kv \<Rightarrow>
          if \<not> hashable kv then (Inl TypeError, r)
          else
            (let r1 = r\<lparr> rows := AList.update kv row (rows r) \<rparr>
             in case (case map_of (theset r1) kv of
                        Some l \<Rightarrow> (Inr l, r1)
                      | None \<Rightarrow>
                          (case represent_row e r1 row None of
                             Inl err \<Rightarrow> (Inl err, r1)
                           | Inr l \<Rightarrow> (Inr l, r1\<lparr> theset := AList.update kv l (theset r1) \<rparr>)))
                of
                  (Inl err, r2) \<Rightarrow> (Inl err, r2)
                | (Inr l, r2) \<Rightarrow>
                    (case map_of lookup kv of
                       None \<Rightarrow> use_rows e k keys rs (items, lookup) r2
                     | Some b \<Rightarrow>
                         if b
                         then use_rows e k keys rs
                                (AList.update (keys_get keys kv) l items, AList.delete kv lookup) r2
                         else use_rows e k keys rs (items, AList.delete kv lookup) r2)))"

text \<open>The two loops over the fetched rows: flat labels, and paths of a hierarchy.\<close>

fun represent_flat ::
    "env \<Rightarrow> pval pdict \<Rightarrow> row pdict \<Rightarrow> label pdict \<times> bool pdict \<Rightarrow> S3Represent \<Rightarrow>
     (error + (label pdict \<times> bool pdict)) \<times> S3Represent" where
  "represent_flat e keys [] acc r = (Inr acc, r)"
| "represent_flat e keys ((kv, row) # rs) (items, lookup) r =
     (case represent_row e r row None of
        Inl err \<Rightarrow> (Inl err, r)
      | Inr l \<Rightarrow>
          represent_flat e keys rs
            (AList.update (keys_get keys kv) l items, AList.delete kv lookup)
            (r\<lparr> theset := AList.update kv l (theset r) \<rparr>))"

fun represent_paths ::
    "env \<Rightarrow> S3Hierarchy \<Rightarrow> pval pdict \<Rightarrow> row pdict \<Rightarrow> row pdict \<Rightarrow>
     label pdict \<times> bool pdict \<Rightarrow> S3Represent \<Rightarrow>
     (error + (label pdict \<times> bool pdict)) \<times> S3Represent" where
  "represent_paths e h keys rws [] acc r = (Inr acc, r)"
| "represent_paths e h keys rws ((kv, row) # rs) (items, lookup) r =
     (if map_of lookup kv = Some True
      then (case S3_represent_path (recursion_limit e) e h rws kv row r of
              (Inl err, r1) \<Rightarrow> (Inl err, r1)
            | (Inr l, r1) \<Rightarrow>
                represent_paths e h keys rws rs
                  (AList.update (keys_get keys kv) l items, AList.delete kv lookup) r1)
      else represent_paths e h keys rws rs (items, AList.delete kv lookup) r)"

text \<open>The block "Retrieve additional rows as needed", entered when \<^verbatim>\<open>lookup\<close> is not empty.\<close>

definition retrieve ::
    "env \<Rightarrow> S3Represent \<Rightarrow> table \<Rightarrow> string \<Rightarrow> pval pdict \<Rightarrow> S3Hierarchy option \<Rightarrow>
     label pdict \<times> bool pdict \<Rightarrow> (error + (label pdict \<times> bool pdict)) \<times> S3Represent" where
  "retrieve e r t k keys h acc =
     (let fs = (if custom_lookup r then []
                else if list_all (\<lambda>f. f \<in> set (tfields t)) (fields_list r) then fields_list r
                else filter (\<lambda>f. f \<in> set (tfields t)) (fields_list r))
      in case call_lookup_rows e r t k (map fst (snd acc)) fs of
           (Inl err, r1) \<Rightarrow> (Inl err, r1)
         | (Inr fetched, r1) \<Rightarrow>
             (case rows_dict k fetched [] of
                Inl err \<Rightarrow> (Inl err, r1)
              | Inr rws \<Rightarrow>
                  (let r2 = r1\<lparr> rows := fold (\<lambda>(kv, row). AList.update kv row) rws (rows r1) \<rparr>
                   in case h of
                        Some h0 \<Rightarrow> represent_paths e h0 keys rws rws acc r2
                      | None \<Rightarrow> represent_flat e keys rws acc r2)))"

text \<open>\<^verbatim>\<open>for k in lookup: items[keys.get(k, k)] = self.default\<close>\<close>

fun fill_default :: "label \<Rightarrow> pval pdict \<Rightarrow> pval list \<Rightarrow> label pdict \<Rightarrow> label pdict" where
  "fill_default d keys [] items = items"
| "fill_default d keys (k # ks) items =
     fill_default d keys ks (AList.update (keys_get keys k) d items)"

text \<open>
  The hierarchy of the lookup table, when hierarchical representation is asked for and
  the table has one configured; and the ancestors enqueued for every pending key.
\<close>

definition get_hierarchy :: "env \<Rightarrow> S3Represent \<Rightarrow> table \<Rightarrow> S3Hierarchy option" where
  "get_hierarchy e r t =
     (if hier_truthy (hierarchy r)
      then (let h = new_S3Hierarchy e (tname t) in if config h then Some h else None)
      else None)"

definition enqueue_parents :: "S3Hierarchy option \<Rightarrow> label pdict \<Rightarrow> bool pdict \<Rightarrow> bool pdict" where
  "enqueue_parents h ts lookup =
     (case h of
        None \<Rightarrow> lookup
      | Some h0 \<Rightarrow> fold (lookup_parent h0 ts) (map fst lookup) lookup)"

definition S3_lookup ::
    "env \<Rightarrow> S3Represent \<Rightarrow> pval list \<Rightarrow> row list option \<Rightarrow> (error + label pdict) \<times> S3Represent" where
  "S3_lookup e r vs rows_p =
     (case check_values r vs ([], [], []) of
        Inl err \<Rightarrow> (Inl err, r)
      | Inr (keys, items, lookup) \<Rightarrow>
          (case table r of
             None \<Rightarrow> (Inr items, r)
           | Some t \<Rightarrow>
               if lookup = [] then (Inr items, r)
               else
                 (let h = get_hierarchy e r t;
                      lookup1 = enqueue_parents h (theset r) lookup
                  in case key r of
                       None \<Rightarrow> (Inl TypeError, r)
                     | Some pkey \<Rightarrow>
                         if pkey \<notin> set (tfields t) then (Inr items, r)
                         else
                           (case (case rows_p of
                                    None \<Rightarrow> (Inr (items, lookup1), r)
                                  | Some rs \<Rightarrow>
                                      if rs \<noteq> [] \<and> \<not> custom_lookup r
                                      then use_rows e pkey keys rs (items, lookup1) r
                                      else (Inr (items, lookup1), r))
                            of
                              (Inl err, r1) \<Rightarrow> (Inl err, r1)
                            | (Inr acc1, r1) \<Rightarrow>
                                (case (if snd acc1 \<noteq> []
                                       then retrieve e r1 t pkey keys h acc1
                                       else (Inr acc1, r1))
                                 of
                                   (Inl err, r2) \<Rightarrow> (Inl err, r2)
                                 | (Inr acc2, r2) \<Rightarrow>
                                     (Inr (fill_default (default_repr r2) keys
                                             (map fst (snd acc2)) (fst acc2)),
                                      r2))))))"

section \<open>The entry points\<close>

text \<open>\<^verbatim>\<open>row[self.key]\<close>: a Row has no entry for a missing field, nor for the key \<^verbatim>\<open>None\<close>.\<close>

definition row_key :: "string option \<Rightarrow> row \<Rightarrow> error + pval" where
  "row_key k row = (case k of None \<Rightarrow> Inl KeyError | Some f \<Rightarrow> row_get row f)"

text \<open>
  \<^verbatim>\<open>for v in value\<close>: a list yields its elements, a string its characters; \<^verbatim>\<open>None\<close> and
  an integer are not iterable.
\<close>

definition py_iter :: "pval \<Rightarrow> error + pval list" where
  "py_iter v =
     (case v of
        PList xs \<Rightarrow> Inr xs
      | PStr s \<Rightarrow> Inr (map (\<lambda>c. PStr [c]) s)
      | _ \<Rightarrow> Inl TypeError)"

fun chain_from_iterable :: "pval list \<Rightarrow> error + pval list" where
  "chain_from_iterable [] = Inr []"
| "chain_from_iterable (x # xs) =
     (case py_iter x of
        Inl err \<Rightarrow> Inl err
      | Inr ys \<Rightarrow>
          (case chain_from_iterable xs of
             Inl err \<Rightarrow> Inl err
           | Inr zs \<Rightarrow> Inr (ys @ zs)))"

text \<open>
  The \<^verbatim>\<open>try\<close> block of \<^verbatim>\<open>multiple\<close> and \<^verbatim>\<open>bulk\<close> for list-types: every TypeError
  inside becomes a ValueError. Python leaves the order of \<^verbatim>\<open>list(set(...))\<close> open;
  here it is the order of \<open>remdups\<close>.
\<close>

definition flatten :: "pval \<Rightarrow> error + pval list" where
  "flatten v =
     (case v of
        PList xs \<Rightarrow>
          (let hasnone = (PNone \<in> set xs);
               xs1 = (if hasnone then filter (\<lambda>i. i \<noteq> PNone) xs else xs)
           in case chain_from_iterable xs1 of
                Inl err \<Rightarrow> Inl ValueError
              | Inr ys \<Rightarrow>
                  if list_all hashable ys
                  then Inr (remdups ys @ (if hasnone then [PNone] else []))
                  else Inl ValueError)
      | _ \<Rightarrow> Inl ValueError)"

text \<open>\<^verbatim>\<open>[values] if type(values) is not list else values\<close>\<close>

definition as_list :: "pval \<Rightarrow> pval list" where
  "as_list v = (case v of PList xs \<Rightarrow> xs | _ \<Rightarrow> [v])"

definition rows_given :: "row list option \<Rightarrow> bool" where
  "rows_given rows_p = (case rows_p of None \<Rightarrow> False | Some rs \<Rightarrow> rs \<noteq> [])"

text \<open>\<^verbatim>\<open>[row[key] for row in rows]\<close>\<close>

fun rows_keys :: "string option \<Rightarrow> row list \<Rightarrow> error + pval list" where
  "rows_keys k [] = Inr []"
| "rows_keys k (row # rs) =
     (case row_key k row of
        Inl err \<Rightarrow> Inl err
      | Inr kv \<Rightarrow>
          (case rows_keys k rs of
             Inl err \<Rightarrow> Inl err
           | Inr kvs \<Rightarrow> Inr (kv # kvs)))"

subsection \<open>\<^verbatim>\<open>multiple\<close>\<close>

text \<open>The labels joined by \<^verbatim>\<open>", ".join\<close>, which accepts strings only.\<close>

fun label_strings :: "env \<Rightarrow> label \<Rightarrow> label pdict \<Rightarrow> pval list \<Rightarrow> error + string list" where
  "label_strings e d items [] = Inr []"
| "label_strings e d items (k # ks) =
     (case (case map_of items k of
              Some l \<Rightarrow> Inr (s3_unicode_label e l)
            | None \<Rightarrow> (case d of LStr s \<Rightarrow> Inr s | _ \<Rightarrow> Inl TypeError))
      of
        Inl err \<Rightarrow> Inl err
      | Inr s \<Rightarrow>
          (case label_strings e d items ks of
             Inl err \<Rightarrow> Inl err
           | Inr ss \<Rightarrow> Inr (s # ss)))"

definition multiple ::
    "env \<Rightarrow> S3Represent \<Rightarrow> pval \<Rightarrow> row list option \<Rightarrow> bool \<Rightarrow> bool \<Rightarrow>
     (error + label) \<times> S3Represent" where
  "multiple e r0 v rows_p lt sl =
     (case S3_setup e r0 of
        (Inl err, r) \<Rightarrow> (Inl err, r)
      | (Inr u, r) \<Rightarrow>
          (let sl1 = (sl \<and> show_link r)
           in case (if rows_given rows_p \<and> table r \<noteq> None
                    then rows_keys (key r) (case rows_p of Some rs \<Rightarrow> rs | None \<Rightarrow> [])
                    else if list_type r \<and> lt then flatten v
                    else Inr (as_list v))
              of
                Inl err \<Rightarrow> (Inl err, r)
              | Inr vs \<Rightarrow>
                  if vs \<noteq> []
                  then (case S3_lookup e r vs rows_p of
                          (Inl err, r1) \<Rightarrow> (Inl err, r1)
                        | (Inr items, r1) \<Rightarrow>
                            if sl1
                            then (Inr (HtmlTAG (butlast (concat (map
                                    (\<lambda>k. case map_of items k of
                                            Some l \<Rightarrow>
                                              [link e r1 k (LStr (s3_unicode_label e l))
                                                 (map_of (rows r1) k),
                                               LStr '', '']
                                          | None \<Rightarrow> [default_repr r1, LStr '', ''])
                                    vs)))),
                                  r1)
                            else (case label_strings e (default_repr r1) items vs of
                                    Inl err \<Rightarrow> (Inl err, r1)
                                  | Inr ss \<Rightarrow> (Inr (LStr (join '', '' ss)), r1)))
                  else (Inr (none r), r)))"

subsection \<open>\<^verbatim>\<open>__call__\<close>\<close>

text \<open>
  For a list-type the call goes to \<^verbatim>\<open>multiple\<close> with the single Row as \<^verbatim>\<open>rows\<close>. With
  a table and a non-empty Row, \<^verbatim>\<open>multiple\<close> then iterates the Row itself and subscripts
  what it yields with the key name, a TypeError; otherwise the Row plays no part.
\<close>

definition S3_call ::
    "env \<Rightarrow> S3Represent \<Rightarrow> pval \<Rightarrow> row option \<Rightarrow> bool \<Rightarrow> (error + label) \<times> S3Represent" where
  "S3_call e r0 v row sl =
     (case S3_setup e r0 of
        (Inl err, r) \<Rightarrow> (Inl err, r)
      | (Inr u, r) \<Rightarrow>
          (let sl1 = (sl \<and> show_link r)
           in if list_type r
              then (if row_truthy row \<and> table r \<noteq> None then (Inl TypeError, r)
                    else multiple e r v None False sl1)
              else (case (if row_truthy row \<and> table r \<noteq> None
                          then row_key (key r) (case row of Some rw \<Rightarrow> rw | None \<Rightarrow> [])
                          else Inr v)
                    of
                      Inl err \<Rightarrow> (Inl err, r)
                    | Inr v1 \<Rightarrow>
                        if truthy v1
                        then (case S3_lookup e r [v1] (map_option (\<lambda>rw. [rw]) row) of
                                (Inl err, r1) \<Rightarrow> (Inl err, r1)
                              | (Inr items, r1) \<Rightarrow>
                                  (case map_of items v1 of
                                     Some l \<Rightarrow>
                                       (Inr (if sl1 then link e r1 v1 l (map_of (rows r1) v1)
                                             else l),
                                        r1)
                                   | None \<Rightarrow> (Inr (default_repr r1), r1)))
                        else (Inr (none r), r))))"

subsection \<open>\<^verbatim>\<open>bulk\<close> and \<^verbatim>\<open>render_list\<close>\<close>

text \<open>The loop of \<^verbatim>\<open>bulk\<close> over the given rows: it stores each row under its key.\<close>

fun bulk_rows ::
    "string option \<Rightarrow> row list \<Rightarrow> pval list \<Rightarrow> S3Represent \<Rightarrow>
     (error + pval list) \<times> S3Represent" where
  "bulk_rows k [] acc r = (Inr (remdups acc), r)"
| "bulk_rows k (row # rs) acc r =
     (case row_key k row of
        Inl err \<Rightarrow> (Inl err, r)
      | Inr kv \<Rightarrow>
          if \<not> hashable kv then (Inl TypeError, r)
          else bulk_rows k rs (acc @ [kv]) (r\<lparr> rows := AList.update kv row (rows r) \<rparr>))"

text \<open>\<^verbatim>\<open>for k in values: if k not in labels: labels[k] = self.default\<close>\<close>

fun add_missing :: "label \<Rightarrow> pval list \<Rightarrow> label pdict \<Rightarrow> label pdict" where
  "add_missing d [] lbls = lbls"
| "add_missing d (k # ks) lbls =
     add_missing d ks (if map_of lbls k = None then AList.update k d lbls else lbls)"

definition bulk ::
    "env \<Rightarrow> S3Represent \<Rightarrow> pval \<Rightarrow> row list option \<Rightarrow> bool \<Rightarrow> bool \<Rightarrow>
     (error + label pdict) \<times> S3Represent" where
  "bulk e r00 v rows_p lt sl =
     (let r0 = r00\<lparr> trace := trace r00 @ [Bulk v] \<rparr>
      in case S3_setup e r0 of
           (Inl err, r) \<Rightarrow> (Inl err, r)
         | (Inr u, r) \<Rightarrow>
             (let sl1 = (sl \<and> show_link r)
              in case (if rows_given rows_p \<and> table r \<noteq> None
                       then bulk_rows (key r) (case rows_p of Some rs \<Rightarrow> rs | None \<Rightarrow> []) [] r
                       else if list_type r \<and> lt then (flatten v, r)
                       else (Inr (as_list v), r))
                 of
                   (Inl err, r1) \<Rightarrow> (Inl err, r1)
                 | (Inr vs, r1) \<Rightarrow>
                     if vs \<noteq> []
                     then (case S3_lookup e r1 vs rows_p of
                             (Inl err, r2) \<Rightarrow> (Inl err, r2)
                           | (Inr items, r2) \<Rightarrow>
                               (let linked = (if sl1
                                              then map (\<lambda>(k, l). (k, link e r2 k l (map_of (rows r2) k)))
                                                     items
                                              else items)
                                in (Inr (AList.update PNone (none r2)
                                           (add_missing (default_repr r2) vs linked)),
                                    r2)))
                     else (Inr [(PNone, none r1)], r1)))"

definition render_list :: "env \<Rightarrow> S3Represent \<Rightarrow> pval \<Rightarrow> label pdict \<Rightarrow> bool \<Rightarrow> error + label" where
  "render_list e r v lbls sl =
     (case py_iter v of
        Inl err \<Rightarrow> Inl err
      | Inr vs \<Rightarrow>
          if \<not> list_all hashable vs then Inl TypeError
          else if sl \<and> show_link r
          then (if vs \<noteq> []
                then Inr (HtmlTAG (butlast (concat (map
                            (\<lambda>k. case map_of lbls k of
                                    Some l \<Rightarrow> [l, LStr '', '']
                                  | None \<Rightarrow> [default_repr r, LStr '', ''])
                            vs))))
                else Inr (LStr []))
          else (case label_strings e (default_repr r) lbls vs of
                  Inl err \<Rightarrow> Inl err
                | Inr ss \<Rightarrow> Inr (LStr (join '', '' ss))))"

section \<open>\<^verbatim>\<open>S3RepresentLazy\<close>\<close>

text \<open>
  An accumulator holds its value and the flag \<^verbatim>\<open>multiple\<close>; its renderer is the shared
  \<^verbatim>\<open>S3Represent\<close> instance, which the operations take and return.
\<close>

record S3RepresentLazy =
  lazy_value :: pval
  lazy_multiple :: bool

definition lazy_init :: "pval \<Rightarrow> S3Represent \<Rightarrow> S3RepresentLazy \<times> S3Represent" where
  "lazy_init v r = (\<lparr> lazy_value = v, lazy_multiple = False \<rparr>, r\<lparr> lazy := lazy r @ [v] \<rparr>)"

text \<open>
  The head of \<^verbatim>\<open>represent\<close> and \<^verbatim>\<open>render\<close>: resolve the queue with one \<^verbatim>\<open>bulk\<close> and empty
  it, or take \<^verbatim>\<open>theset\<close> when nothing is queued.
\<close>

definition flush_lazy :: "env \<Rightarrow> S3Represent \<Rightarrow> (error + label pdict) \<times> S3Represent" where
  "flush_lazy e r =
     (if lazy r \<noteq> []
      then (case bulk e r (PList (lazy r)) None True True of
              (Inl err, r1) \<Rightarrow> (Inl err, r1)
            | (Inr lbls, r1) \<Rightarrow> (Inr lbls, r1\<lparr> lazy := [] \<rparr>))
      else (Inr (theset r), r))"

definition lazy_represent ::
    "env \<Rightarrow> S3RepresentLazy \<Rightarrow> S3Represent \<Rightarrow> (error + label) \<times> S3Represent" where
  "lazy_represent e a r =
     (case flush_lazy e r of
        (Inl err, r1) \<Rightarrow> (Inl err, r1)
      | (Inr lbls, r1) \<Rightarrow>
          if list_type r1
          then (if lazy_multiple a then multiple e r1 (lazy_value a) None True False
                else (render_list e r1 (lazy_value a) lbls False, r1))
          else (if lazy_multiple a then multiple e r1 (lazy_value a) None True False
                else S3_call e r1 (lazy_value a) None False))"

text \<open>\<^verbatim>\<open>len(value) and type(value[0]) is not list\<close>, for a true \<^verbatim>\<open>value\<close>.\<close>

definition wrap_flat :: "pval \<Rightarrow> error + pval" where
  "wrap_flat v =
     (case v of
        PList [] \<Rightarrow> Inr v
      | PList (x # xs) \<Rightarrow> (case x of PList ys \<Rightarrow> Inr v | _ \<Rightarrow> Inr (PList [v]))
      | PStr [] \<Rightarrow> Inr v
      | PStr (c # cs) \<Rightarrow> Inr (PList [v])
      | _ \<Rightarrow> Inl TypeError)"

definition lazy_render ::
    "env \<Rightarrow> S3RepresentLazy \<Rightarrow> S3Represent \<Rightarrow> (error + label) \<times> S3Represent" where
  "lazy_render e a r =
     (case flush_lazy e r of
        (Inl err, r1) \<Rightarrow> (Inl err, r1)
      | (Inr lbls, r1) \<Rightarrow>
          if list_type r1
          then (let v = (if \<not> truthy (lazy_value a) then PList [] else lazy_value a)
                in if lazy_multiple a
                   then (case wrap_flat v of
                           Inl err \<Rightarrow> (Inl err, r1)
                         | Inr v1 \<Rightarrow> multiple e r1 v1 None True True)
                   else (render_list e r1 v lbls True, r1))
          else (if lazy_multiple a then multiple e r1 (lazy_value a) None True True
                else S3_call e r1 (lazy_value a) None True))"

section \<open>An example configuration\<close>

text \<open>
  A lookup table \<^verbatim>\<open>org_organisation\<close> with three records, whose hierarchy makes record 2
  the parent of record 1 and record 3 the parent of record 2. It serves the concrete
  instances below: a plain representer, the same after \<^verbatim>\<open>_setup\<close>, a list-type one, and
  one whose key field \<^verbatim>\<open>uuid\<close> the table does not have.
\<close>

definition org_table :: table where
  "org_table = \<lparr> tname = ''org_organisation'', tfields = [''id'', ''name''], tid = ''id'' \<rparr>"

definition org_rows :: "row list" where
  "org_rows =
     [[(''id'', PInt 1), (''name'', PStr ''A'')],
      [(''id'', PInt 2), (''name'', PStr ''B'')],
      [(''id'', PInt 3), (''name'', PStr ''C'')]]"

definition org_env :: env where
  "org_env =
     \<lparr> messages_UNKNOWN_OPT = LLazyT ''Unknown'', messages_NONE = LStr ''-'',
       s3db_table = (\<lambda>tn. if tn = ''org_organisation'' then Some org_table else None),
       current_db = (\<lambda>tn. if tn = ''org_organisation'' then org_rows else []),
       current_T = (\<lambda>l. l),
       new_S3Hierarchy =
         (\<lambda>tn. \<lparr> config = True, nodes = [(PInt 1, PInt 2), (PInt 2, PInt 3)] \<rparr>),
       py_repr = (\<lambda>v. ''[]''), xml = (\<lambda>l. ''<a/>''),
       URL = (\<lambda>c f. ''/eden/'' @ c @ ''/'' @ f @ ''/%5Bid%5D''),
       recursion_limit = 10 \<rparr>"

definition org_rep :: S3Represent where
  "org_rep = init (Some ''org_organisation'') None [] NoLabels None False None False False
               (HBool False) LNone LNone '' ''"

definition org_ready :: S3Represent where
  "org_ready = snd (S3_setup org_env org_rep)"

definition org_list_rep :: S3Represent where
  "org_list_rep = init (Some ''org_organisation'') None [] NoLabels None False None False True
               (HBool False) LNone LNone '' ''"


text \<open>The same representer with hierarchical paths asked for, before and after \<^verbatim>\<open>_setup\<close>.\<close>

definition org_tree_rep :: S3Represent where
  "org_tree_rep = init (Some ''org_organisation'') None [] NoLabels None False None False False
                    (HBool True) LNone LNone '' ''"

definition org_tree :: S3Represent where
  "org_tree = snd (S3_setup org_env org_tree_rep)"

text \<open>
  A list-type representer over options, without a lookup table; and the example
  environment with one more record, whose key is \<open>0\<close>.
\<close>

definition opt_list_rep :: S3Represent where
  "opt_list_rep = init None None [] NoLabels (Some [(PStr ''a'', LStr ''Alpha'')]) False None
                    False True (HBool False) LNone LNone '' ''"

definition zero_env :: env where
  "zero_env = org_env\<lparr> current_db :=
     (\<lambda>tn. if tn = ''org_organisation''
           then [(''id'', PInt 0), (''name'', PStr ''Zero'')] # org_rows else []) \<rparr>"

section \<open>Notions used in the statements\<close>

text \<open>
  The values on which the \<^verbatim>\<open>try\<close> block of \<^verbatim>\<open>multiple\<close> and \<^verbatim>\<open>bulk\<close> meets a TypeError:
  anything but a list, and a list with an element other than \<^verbatim>\<open>None\<close> that is an integer
  or a list holding a list. (\<^verbatim>\<open>None\<close> elements are taken out before the flattening.)
\<close>

definition bad_element :: "pval \<Rightarrow> bool" where
  "bad_element x =
     (case x of
        PNone \<Rightarrow> True
      | PInt n \<Rightarrow> True
      | PStr s \<Rightarrow> False
      | PList ys \<Rightarrow> \<not> list_all hashable ys)"

definition unflattenable :: "pval \<Rightarrow> bool" where
  "unflattenable v =
     (case v of
        PList xs \<Rightarrow> list_ex bad_element (filter (\<lambda>i. i \<noteq> PNone) xs)
      | _ \<Rightarrow> True)"

text \<open>
  \<open>static\<close> forgets the attributes that a lookup may write. A call that satisfies
  \<open>frame\<close> wrote at most \<^verbatim>\<open>theset\<close> and \<^verbatim>\<open>rows\<close>; one that satisfies \<open>fetched\<close> also
  called \<^verbatim>\<open>lookup_rows\<close> once, with the keys \<open>ks\<close>. \<open>fetch_count\<close> counts the calls of
  \<^verbatim>\<open>lookup_rows\<close> in a trace.
\<close>

definition static :: "S3Represent \<Rightarrow> S3Represent" where
  "static r = r\<lparr> theset := [], rows := [], trace := [], queries := 0 \<rparr>"

definition frame :: "S3Represent \<Rightarrow> S3Represent \<Rightarrow> bool" where
  "frame r r' = (static r' = static r \<and> trace r' = trace r \<and> queries r' = queries r)"

definition fetched :: "S3Represent \<Rightarrow> S3Represent \<Rightarrow> pval list \<Rightarrow> bool" where
  "fetched r r' ks =
     (static r' = static r \<and> trace r' = trace r @ [LookupRows ks] \<and>
      queries r' = (if custom_lookup r then queries r else queries r + 1))"

definition fetch_count :: "event list \<Rightarrow> nat" where
  "fetch_count tr = length (filter (\<lambda>ev. case ev of LookupRows ks \<Rightarrow> True | Bulk v \<Rightarrow> False) tr)"

text \<open>
  What the first loop of \<^verbatim>\<open>_lookup\<close> answers at once for a value: the none-label for
  \<^verbatim>\<open>None\<close>, the label in \<^verbatim>\<open>theset\<close> for a cached key, nothing for a pending one.
\<close>

definition cached :: "S3Represent \<Rightarrow> pval \<Rightarrow> label option" where
  "cached r v0 =
     (if normalise (table r) v0 = PNone then Some (none r)
      else map_of (theset r) (normalise (table r) v0))"

text \<open>
  The table has a row whose key field holds \<open>kv\<close>; the instance has a table, a key
  field of that table, and the default \<^verbatim>\<open>lookup_rows\<close>; and the value under which a key
  was last requested (\<^verbatim>\<open>keys[v] = _v\<close>).
\<close>

definition has_row :: "env \<Rightarrow> table \<Rightarrow> string \<Rightarrow> pval \<Rightarrow> bool" where
  "has_row e t k kv = list_ex (\<lambda>row. map_of row k = Some kv) (current_db e (tname t))"

definition configured :: "S3Represent \<Rightarrow> table \<Rightarrow> string \<Rightarrow> bool" where
  "configured r t k =
     (table r = Some t \<and> key r = Some k \<and> k \<in> set (tfields t) \<and> \<not> custom_lookup r)"

definition requested_as :: "S3Represent \<Rightarrow> pval list \<Rightarrow> pval \<Rightarrow> pval" where
  "requested_as r vs v =
     last (filter (\<lambda>v0. normalise (table r) v0 = normalise (table r) v) vs)"

text \<open>
  The row that the dictionary built from a fetch keeps for a key: the last of the table's
  rows that hold it.
\<close>

definition find_row :: "env \<Rightarrow> table \<Rightarrow> string \<Rightarrow> pval \<Rightarrow> row option" where
  "find_row e t k kv =
     (case filter (\<lambda>row. map_of row k = Some kv) (current_db e (tname t)) of
        [] \<Rightarrow> None
      | x # xs \<Rightarrow> Some (last (x # xs)))"

text \<open>Enqueueing ancestors keeps every entry and only adds keys flagged False.\<close>

definition extends :: "bool pdict \<Rightarrow> bool pdict \<Rightarrow> bool" where
  "extends lookup lookup' =
     (\<forall>x. map_of lookup' x = map_of lookup x \<or>
          (map_of lookup x = None \<and> map_of lookup' x = Some False \<and> is_key x))"

text \<open>The arguments of the calls of \<^verbatim>\<open>bulk\<close> recorded in a trace, in order.\<close>

definition bulk_calls :: "event list \<Rightarrow> pval list" where
  "bulk_calls tr = concat (map (\<lambda>ev. case ev of Bulk v \<Rightarrow> [v] | LookupRows ks \<Rightarrow> []) tr)"

section \<open>Facts about the model\<close>

subsection \<open>What a lookup changes\<close>

lemma frame_refl [simp]: "frame r r"
  by (simp add: frame_def)

lemma frame_trans: "frame r r1 \<Longrightarrow> frame r1 r2 \<Longrightarrow> frame r r2"
  by (simp add: frame_def)

lemma frame_theset [simp]: "frame r (r1\<lparr> theset := ts \<rparr>) = frame r r1"
  by (simp add: frame_def static_def)

lemma frame_rows [simp]: "frame r (r1\<lparr> rows := rw \<rparr>) = frame r r1"
  by (simp add: frame_def static_def)

lemma represent_path_frame:
  "S3_represent_path n e h rws v row r = (res, r') \<Longrightarrow> frame r r'"
proof (induction n arbitrary: v row r res r')
  case 0
  then show ?case by auto
next
  case (Suc n)
  show ?case
  proof (cases "map_of (theset r) v")
    case (Some l)
    with Suc.prems show ?thesis by auto
  next
    case None
    note nv = None
    show ?thesis
    proof (cases "truthy (parent h v) \<and> map_of (theset r) (parent h v) = None
                  \<and> map_of rws (parent h v) \<noteq> None")
      case True
      then obtain prow where prow: "map_of rws (parent h v) = Some prow" by auto
      obtain res1 r1 where rec: "S3_represent_path n e h rws (parent h v) prow r = (res1, r1)"
        by (cases "S3_represent_path n e h rws (parent h v) prow r") auto
      from Suc.IH [OF rec] have "frame r r1" .
      with Suc.prems nv True prow rec show ?thesis
        by (auto simp: Let_def split: sum.splits)
    next
      case False
      with Suc.prems nv show ?thesis
        by (auto simp: Let_def split: sum.splits option.splits if_splits)
    qed
  qed
qed

lemma use_rows_frame:
  "use_rows e k keys rs acc r = (res, r') \<Longrightarrow> frame r r'"
proof (induction rs arbitrary: acc r res r')
  case Nil
  then show ?case by auto
next
  case (Cons row rs)
  obtain items lookup where acc: "acc = (items, lookup)" by (cases acc)
  have step: "\<And>acc1 r1. use_rows e k keys rs acc1 r1 = (res, r') \<Longrightarrow> frame r r1 \<Longrightarrow> frame r r'"
    using Cons.IH frame_trans by blast
  from Cons.prems acc show ?case
    by (auto simp: Let_def split: sum.splits option.splits if_splits elim!: step)
qed

lemma represent_flat_frame:
  "represent_flat e keys rs acc r = (res, r') \<Longrightarrow> frame r r'"
proof (induction rs arbitrary: acc r res r')
  case Nil
  then show ?case by auto
next
  case (Cons x rs)
  obtain items lookup where acc: "acc = (items, lookup)" by (cases acc)
  obtain kv row where x: "x = (kv, row)" by (cases x)
  have step: "\<And>acc1 r1. represent_flat e keys rs acc1 r1 = (res, r') \<Longrightarrow> frame r r1 \<Longrightarrow> frame r r'"
    using Cons.IH frame_trans by blast
  from Cons.prems acc x show ?case
    by (auto simp: Let_def split: sum.splits option.splits if_splits elim!: step)
qed

lemma represent_paths_frame:
  "represent_paths e h keys rws rs acc r = (res, r') \<Longrightarrow> frame r r'"
proof (induction rs arbitrary: acc r res r')
  case Nil
  then show ?case by auto
next
  case (Cons x rs)
  obtain items lookup where acc: "acc = (items, lookup)" by (cases acc)
  obtain kv row where x: "x = (kv, row)" by (cases x)
  have step: "\<And>acc1 r1. represent_paths e h keys rws rs acc1 r1 = (res, r') \<Longrightarrow> frame r r1 \<Longrightarrow> frame r r'"
    using Cons.IH frame_trans by blast
  from Cons.prems acc x show ?case
    by (auto simp: Let_def split: sum.splits option.splits if_splits prod.splits
             elim!: step dest: represent_path_frame)
qed

lemma static_custom_lookup: "static r' = static r \<Longrightarrow> custom_lookup r' = custom_lookup r"
  by (drule arg_cong [where f = custom_lookup]) (simp add: static_def)

lemma static_fields:
  assumes "static r' = static r"
  shows "table r' = table r" "key r' = key r" "custom_lookup r' = custom_lookup r"
    "hierarchy r' = hierarchy r" "default_repr r' = default_repr r" "none r' = none r"
    "list_type r' = list_type r" "show_link r' = show_link r" "linkto r' = linkto r"
    "setup_done r' = setup_done r" "lazy r' = lazy r"
proof -
  show "table r' = table r" using arg_cong [OF assms, of table] by (simp add: static_def)
  show "key r' = key r" using arg_cong [OF assms, of key] by (simp add: static_def)
  show "custom_lookup r' = custom_lookup r"
    using arg_cong [OF assms, of custom_lookup] by (simp add: static_def)
  show "hierarchy r' = hierarchy r" using arg_cong [OF assms, of hierarchy] by (simp add: static_def)
  show "default_repr r' = default_repr r"
    using arg_cong [OF assms, of default_repr] by (simp add: static_def)
  show "none r' = none r" using arg_cong [OF assms, of none] by (simp add: static_def)
  show "list_type r' = list_type r" using arg_cong [OF assms, of list_type] by (simp add: static_def)
  show "show_link r' = show_link r" using arg_cong [OF assms, of show_link] by (simp add: static_def)
  show "linkto r' = linkto r" using arg_cong [OF assms, of linkto] by (simp add: static_def)
  show "setup_done r' = setup_done r"
    using arg_cong [OF assms, of setup_done] by (simp add: static_def)
  show "lazy r' = lazy r" using arg_cong [OF assms, of lazy] by (simp add: static_def)
qed

lemma frame_fetched: "frame r r1 \<Longrightarrow> fetched r1 r2 ks \<Longrightarrow> fetched r r2 ks"
  by (auto simp: frame_def fetched_def dest: static_custom_lookup)

lemma fetched_frame: "fetched r r1 ks \<Longrightarrow> frame r1 r2 \<Longrightarrow> fetched r r2 ks"
  by (auto simp: frame_def fetched_def)

lemma call_lookup_rows_fetched:
  "call_lookup_rows e r t k vs fs = (res, r') \<Longrightarrow> fetched r r' vs"
  by (auto simp: call_lookup_rows_def S3_lookup_rows_def fetched_def static_def Let_def
           split: if_splits)

lemma fetched_rows [simp]: "fetched r (r1\<lparr> rows := rw \<rparr>) ks = fetched r r1 ks"
  by (simp add: fetched_def static_def)

lemma retrieve_fetched:
  assumes "retrieve e r t k keys h acc = (res, r')"
  shows "fetched r r' (map fst (snd acc))"
proof -
  let ?fs = "if custom_lookup r then []
             else if list_all (\<lambda>f. f \<in> set (tfields t)) (fields_list r) then fields_list r
             else filter (\<lambda>f. f \<in> set (tfields t)) (fields_list r)"
  obtain res1 r1 where c: "call_lookup_rows e r t k (map fst (snd acc)) ?fs = (res1, r1)"
    by (cases "call_lookup_rows e r t k (map fst (snd acc)) ?fs") auto
  have f1: "fetched r r1 (map fst (snd acc))"
    using call_lookup_rows_fetched [OF c] .
  show ?thesis
  proof (cases res1)
    case (Inl err)
    with assms c f1 show ?thesis by (simp add: retrieve_def)
  next
    case (Inr got)
    show ?thesis
    proof (cases "rows_dict k got []")
      case (Inl err)
      with assms c f1 Inr show ?thesis by (simp add: retrieve_def)
    next
      case rd: (Inr rws)
      let ?r2 = "r1\<lparr> rows := fold (\<lambda>(kv, row). AList.update kv row) rws (rows r1) \<rparr>"
      have f2: "fetched r ?r2 (map fst (snd acc))" using f1 by simp
      show ?thesis
      proof (cases h)
        case None
        with assms c Inr rd have "represent_flat e keys rws acc ?r2 = (res, r')"
          by (simp add: retrieve_def)
        from represent_flat_frame [OF this] f2 show ?thesis by (rule fetched_frame [rotated])
      next
        case (Some h0)
        with assms c Inr rd have "represent_paths e h0 keys rws rws acc ?r2 = (res, r')"
          by (simp add: retrieve_def)
        from represent_paths_frame [OF this] f2 show ?thesis by (rule fetched_frame [rotated])
      qed
    qed
  qed
qed

lemma lookup_effect:
  assumes "S3_lookup e r vs rows_p = (res, r')"
  shows "frame r r' \<or> (\<exists>ks. fetched r r' ks)"
proof (cases "check_values r vs ([], [], [])")
  case (Inl err)
  with assms show ?thesis by (simp add: S3_lookup_def)
next
  case (Inr trip)
  obtain keys items lookup where trip: "trip = (keys, items, lookup)" by (cases trip)
  show ?thesis
  proof (cases "table r")
    case None
    with assms Inr trip show ?thesis by (simp add: S3_lookup_def)
  next
    case (Some t)
    note tb = Some
    show ?thesis
    proof (cases "lookup = [] \<or> key r = None \<or> (\<exists>pk. key r = Some pk \<and> pk \<notin> set (tfields t))")
      case True
      then consider "lookup = []" | "lookup \<noteq> []" "key r = None"
        | pk where "lookup \<noteq> []" "key r = Some pk" "pk \<notin> set (tfields t)"
        by (cases "lookup = []") auto
      then show ?thesis
      proof cases
        case 1
        with assms Inr trip tb show ?thesis by (simp add: S3_lookup_def)
      next
        case 2
        with assms Inr trip tb show ?thesis by (simp add: S3_lookup_def Let_def)
      next
        case 3
        with assms Inr trip tb show ?thesis by (simp add: S3_lookup_def Let_def)
      qed
    next
      case False
      then obtain pk where pk: "key r = Some pk" "pk \<in> set (tfields t)" "lookup \<noteq> []" by auto
      let ?h = "get_hierarchy e r t"
      let ?l1 = "enqueue_parents ?h (theset r) lookup"
      let ?u = "(case rows_p of
                   None \<Rightarrow> (Inr (items, ?l1), r)
                 | Some rs \<Rightarrow>
                     if rs \<noteq> [] \<and> \<not> custom_lookup r
                     then use_rows e pk keys rs (items, ?l1) r
                     else (Inr (items, ?l1), r))"
      obtain res1 r1 where u: "?u = (res1, r1)" by (cases ?u) auto
      have fr1: "frame r r1"
        using u by (auto split: option.splits if_splits dest: use_rows_frame)
      show ?thesis
      proof (cases res1)
        case (Inl err)
        with assms Inr trip tb pk u fr1 show ?thesis
          by (simp add: S3_lookup_def Let_def)
      next
        case acc1: (Inr acc1)
        show ?thesis
        proof (cases "snd acc1 \<noteq> []")
          case False
          with assms Inr trip tb pk u fr1 acc1 show ?thesis
            by (simp add: S3_lookup_def Let_def)
        next
          case True
          obtain res2 r2 where rt: "retrieve e r1 t pk keys ?h acc1 = (res2, r2)"
            by (cases "retrieve e r1 t pk keys ?h acc1") auto
          have "fetched r r2 (map fst (snd acc1))"
            using frame_fetched [OF fr1 retrieve_fetched [OF rt]] .
          moreover have "r' = r2"
            using assms Inr trip tb pk u acc1 True rt
            by (auto simp: S3_lookup_def Let_def split: sum.splits)
          ultimately show ?thesis by blast
        qed
      qed
    qed
  qed
qed

lemma fetch_count_append [simp]: "fetch_count (xs @ ys) = fetch_count xs + fetch_count ys"
  by (simp add: fetch_count_def)

lemma configured_fetched: "fetched r r' ks \<Longrightarrow> configured r' t k = configured r t k"
  using static_fields(1-3) [of r' r] by (simp add: fetched_def configured_def)

lemma cached_fetched:
  "fetched r r' ks \<Longrightarrow> theset r' = theset r \<Longrightarrow> cached r' v = cached r v"
  using static_fields(1,6) [of r' r] by (simp add: fetched_def cached_def)

subsection \<open>\<^verbatim>\<open>_setup\<close> and the flattening\<close>

lemma setup_table_keeps [simp]:
  "trace (snd (setup_table e r)) = trace r"
  "list_type (snd (setup_table e r)) = list_type r"
  "theset (snd (setup_table e r)) = theset r"
  "lazy (snd (setup_table e r)) = lazy r"
  "custom_lookup (snd (setup_table e r)) = custom_lookup r"
  "queries (snd (setup_table e r)) = queries r"
  "none (snd (setup_table e r)) = none r"
  "default_repr (snd (setup_table e r)) = default_repr r"
  "setup_done (snd (setup_table e r)) = setup_done r"
  by (simp_all add: setup_table_def Let_def split: option.split)

lemma setup_defaults_keeps [simp]:
  "trace (setup_defaults e r) = trace r"
  "list_type (setup_defaults e r) = list_type r"
  "lazy (setup_defaults e r) = lazy r"
  "custom_lookup (setup_defaults e r) = custom_lookup r"
  by (simp_all add: setup_defaults_def)

lemma setup_renderer_keeps [simp]:
  "trace (setup_renderer r) = trace r"
  "list_type (setup_renderer r) = list_type r"
  "lazy (setup_renderer r) = lazy r"
  "custom_lookup (setup_renderer r) = custom_lookup r"
  "theset (setup_renderer r) = theset r"
  "queries (setup_renderer r) = queries r"
  "none (setup_renderer r) = none r"
  "default_repr (setup_renderer r) = default_repr r"
  "setup_done (setup_renderer r)"
  by (simp_all add: setup_renderer_def)

lemma setup_keeps [simp]:
  "trace (snd (S3_setup e r)) = trace r"
  "list_type (snd (S3_setup e r)) = list_type r"
  "lazy (snd (S3_setup e r)) = lazy r"
  "custom_lookup (snd (S3_setup e r)) = custom_lookup r"
proof -
  obtain res r1 where t: "setup_table e (setup_defaults e r) = (res, r1)"
    by (cases "setup_table e (setup_defaults e r)") auto
  have k: "trace r1 = trace r" "list_type r1 = list_type r" "lazy r1 = lazy r"
    "custom_lookup r1 = custom_lookup r"
    using setup_table_keeps [of e "setup_defaults e r"] by (simp_all add: t)
  show "trace (snd (S3_setup e r)) = trace r"
    "list_type (snd (S3_setup e r)) = list_type r"
    "lazy (snd (S3_setup e r)) = lazy r"
    "custom_lookup (snd (S3_setup e r)) = custom_lookup r"
    by (simp_all add: S3_setup_def t k split: sum.split)
qed

lemma setup_done_after: "S3_setup e r0 = (Inr u, r) \<Longrightarrow> setup_done r"
  by (cases "setup_table e (setup_defaults e r0)")
     (auto simp: S3_setup_def split: if_splits sum.splits)

lemma setup_again: "setup_done r \<Longrightarrow> S3_setup e r = (Inr (), r)"
  by (simp add: S3_setup_def)

lemma setup_defaults_trace_update:
  "setup_defaults e (r\<lparr> trace := tr \<rparr>) = (setup_defaults e r)\<lparr> trace := tr \<rparr>"
  by (simp add: setup_defaults_def)

lemma setup_renderer_trace_update:
  "setup_renderer (r\<lparr> trace := tr \<rparr>) = (setup_renderer r)\<lparr> trace := tr \<rparr>"
  by (simp add: setup_renderer_def)

lemma setup_table_trace_update:
  "setup_table e (r\<lparr> trace := tr \<rparr>)
   = (fst (setup_table e r), (snd (setup_table e r))\<lparr> trace := tr \<rparr>)"
  by (cases "tablename r"; cases "table r"; cases "s3db_table e (the (tablename r))";
      cases "split_tablename (the (tablename r))")
     (auto simp: setup_table_def Let_def)

lemma setup_trace_update:
  "S3_setup e (r\<lparr> trace := tr \<rparr>) = (fst (S3_setup e r), (snd (S3_setup e r))\<lparr> trace := tr \<rparr>)"
  by (cases "setup_table e (setup_defaults e r)")
     (simp add: S3_setup_def setup_defaults_trace_update setup_table_trace_update
        setup_renderer_trace_update split: sum.split)

lemma chain_result:
  "(case chain_from_iterable xs of Inl err \<Rightarrow> False | Inr ys \<Rightarrow> list_all hashable ys)
   = (\<not> list_ex bad_element xs)"
proof (induction xs)
  case Nil
  show ?case by simp
next
  case (Cons x xs)
  show ?case
  proof (cases x)
    case PNone
    then show ?thesis by (simp add: py_iter_def bad_element_def)
  next
    case (PInt n)
    then show ?thesis by (simp add: py_iter_def bad_element_def)
  next
    case (PStr s)
    have "list_all hashable (map (\<lambda>c. PStr [c]) s)" by (induction s) auto
    with PStr Cons.IH show ?thesis
      by (auto simp: py_iter_def bad_element_def split: sum.splits)
  next
    case (PList ys)
    with Cons.IH show ?thesis
      by (auto simp: py_iter_def bad_element_def split: sum.splits)
  qed
qed

lemma drop_none: "(if PNone \<in> set xs then filter (\<lambda>i. i \<noteq> PNone) xs else xs) = filter (\<lambda>i. i \<noteq> PNone) xs"
  by (induction xs) auto

lemma flatten_fails_iff: "(flatten v = Inl ValueError) = unflattenable v"
proof (cases v)
  case (PList xs)
  show ?thesis
    using chain_result [of "filter (\<lambda>i. i \<noteq> PNone) xs"]
    by (auto simp: PList flatten_def unflattenable_def Let_def drop_none split: sum.splits)
qed (simp_all add: flatten_def unflattenable_def)

subsection \<open>The first loop and the enqueueing of ancestors\<close>

lemma normalise_hashable [simp]: "hashable (normalise tbl v) = hashable v"
  by (cases v) (auto simp: normalise_def split: option.splits)

lemma normalise_other [simp]:
  "normalise tbl (PInt n) = PInt n" "normalise tbl PNone = PNone"
  "normalise tbl (PList xs) = PList xs"
  by (simp_all add: normalise_def)

lemma check_values_result:
  "list_all hashable vs \<Longrightarrow>
   \<exists>keys' items' lookup'.
     check_values r vs (keys, items, lookup) = Inr (keys', items', lookup') \<and>
     (\<forall>v. map_of items' v = (if v \<in> set vs \<and> cached r v \<noteq> None then cached r v else map_of items v)) \<and>
     (\<forall>k. map_of lookup' k =
           (if k \<in> normalise (table r) ` set vs \<and> k \<noteq> PNone \<and> map_of (theset r) k = None
            then Some True else map_of lookup k))"
proof (induction vs arbitrary: keys items lookup)
  case Nil
  show ?case by simp
next
  case (Cons v0 vs)
  let ?v = "normalise (table r) v0"
  have h: "hashable ?v" "list_all hashable vs" using Cons.prems by simp_all
  show ?case
  proof (cases "?v = PNone")
    case True
    from Cons.IH [OF h(2), of "AList.update ?v v0 keys" "AList.update v0 (none r) items" lookup]
    obtain k' i' l' where
      c: "check_values r vs (AList.update ?v v0 keys, AList.update v0 (none r) items, lookup)
          = Inr (k', i', l')"
      and i: "\<forall>v. map_of i' v = (if v \<in> set vs \<and> cached r v \<noteq> None then cached r v
                                 else map_of (AList.update v0 (none r) items) v)"
      and l: "\<forall>k. map_of l' k =
           (if k \<in> normalise (table r) ` set vs \<and> k \<noteq> PNone \<and> map_of (theset r) k = None
            then Some True else map_of lookup k)"
      by blast
    have "check_values r (v0 # vs) (keys, items, lookup) = Inr (k', i', l')"
      using c True h by (simp add: Let_def)
    moreover have "\<forall>v. map_of i' v = (if v \<in> set (v0 # vs) \<and> cached r v \<noteq> None then cached r v
                                 else map_of items v)"
      using i True by (auto simp: update_conv' cached_def)
    moreover have "\<forall>k. map_of l' k =
           (if k \<in> normalise (table r) ` set (v0 # vs) \<and> k \<noteq> PNone \<and> map_of (theset r) k = None
            then Some True else map_of lookup k)"
      using l True by auto
    ultimately show ?thesis by blast
  next
    case False
    note nn = False
    show ?thesis
    proof (cases "map_of (theset r) ?v")
      case (Some lb)
      from Cons.IH [OF h(2), of "AList.update ?v v0 keys" "AList.update v0 lb items" lookup]
      obtain k' i' l' where
        c: "check_values r vs (AList.update ?v v0 keys, AList.update v0 lb items, lookup)
            = Inr (k', i', l')"
        and i: "\<forall>v. map_of i' v = (if v \<in> set vs \<and> cached r v \<noteq> None then cached r v
                                   else map_of (AList.update v0 lb items) v)"
        and l: "\<forall>k. map_of l' k =
             (if k \<in> normalise (table r) ` set vs \<and> k \<noteq> PNone \<and> map_of (theset r) k = None
              then Some True else map_of lookup k)"
        by blast
      have "check_values r (v0 # vs) (keys, items, lookup) = Inr (k', i', l')"
        using c nn Some h by (simp add: Let_def)
      moreover have "\<forall>v. map_of i' v = (if v \<in> set (v0 # vs) \<and> cached r v \<noteq> None then cached r v
                                   else map_of items v)"
        using i nn Some by (auto simp: update_conv' cached_def)
      moreover have "\<forall>k. map_of l' k =
             (if k \<in> normalise (table r) ` set (v0 # vs) \<and> k \<noteq> PNone \<and> map_of (theset r) k = None
              then Some True else map_of lookup k)"
        using l nn Some by auto
      ultimately show ?thesis by blast
    next
      case None
      from Cons.IH [OF h(2), of "AList.update ?v v0 keys" items "AList.update ?v True lookup"]
      obtain k' i' l' where
        c: "check_values r vs (AList.update ?v v0 keys, items, AList.update ?v True lookup)
            = Inr (k', i', l')"
        and i: "\<forall>v. map_of i' v = (if v \<in> set vs \<and> cached r v \<noteq> None then cached r v
                                   else map_of items v)"
        and l: "\<forall>k. map_of l' k =
             (if k \<in> normalise (table r) ` set vs \<and> k \<noteq> PNone \<and> map_of (theset r) k = None
              then Some True else map_of (AList.update ?v True lookup) k)"
        by blast
      have "check_values r (v0 # vs) (keys, items, lookup) = Inr (k', i', l')"
        using c nn None h by (simp add: Let_def)
      moreover have "\<forall>v. map_of i' v = (if v \<in> set (v0 # vs) \<and> cached r v \<noteq> None then cached r v
                                   else map_of items v)"
        using i nn None by (auto simp: cached_def)
      moreover have "\<forall>k. map_of l' k =
             (if k \<in> normalise (table r) ` set (v0 # vs) \<and> k \<noteq> PNone \<and> map_of (theset r) k = None
              then Some True else map_of lookup k)"
        using l nn None by (auto simp: update_conv')
      ultimately show ?thesis by blast
    qed
  qed
qed

lemma check_values_keys:
  "check_values r vs (keys, items, lookup) = Inr (keys', items', lookup') \<Longrightarrow>
   map_of keys' k =
     (case filter (\<lambda>v0. normalise (table r) v0 = k) vs of
        [] \<Rightarrow> map_of keys k
      | x # xs \<Rightarrow> Some (last (x # xs)))"
proof (induction vs arbitrary: keys items lookup)
  case Nil
  then show ?case by simp
next
  case (Cons v0 vs)
  let ?v = "normalise (table r) v0"
  from Cons.prems obtain items1 lookup1 where
    c: "check_values r vs (AList.update ?v v0 keys, items1, lookup1) = Inr (keys', items', lookup')"
    by (auto simp: Let_def split: if_splits option.splits)
  from Cons.IH [OF c] show ?case
    by (auto simp: update_conv' split: list.splits)
qed

lemma check_values_hashable:
  "check_values r vs acc = Inr res \<Longrightarrow> list_all hashable vs"
proof (induction vs arbitrary: acc)
  case Nil
  show ?case by simp
next
  case (Cons v0 vs)
  obtain keys items lookup where acc: "acc = (keys, items, lookup)" by (cases acc)
  from Cons.prems acc have h: "hashable v0"
    by (auto simp: Let_def split: if_splits)
  from Cons.prems acc h obtain acc1 where "check_values r vs acc1 = Inr res"
    by (auto simp: Let_def split: if_splits option.splits)
  from Cons.IH [OF this] h show ?case by simp
qed

lemma cached_None: "(cached r v = None) =
    (normalise (table r) v \<noteq> PNone \<and> map_of (theset r) (normalise (table r) v) = None)"
  by (simp add: cached_def)

lemma requested_as_single [simp]: "requested_as r [v] v = v"
  by (simp add: requested_as_def)

lemma keys_get_requested:
  assumes "\<forall>kk. map_of keys kk =
        (case filter (\<lambda>v0. normalise (table r) v0 = kk) vs of
           [] \<Rightarrow> None | x # xs \<Rightarrow> Some (last (x # xs)))"
    and "v \<in> set vs"
  shows "keys_get keys (normalise (table r) v) = requested_as r vs v"
proof -
  have "filter (\<lambda>v0. normalise (table r) v0 = normalise (table r) v) vs \<noteq> []"
    using assms(2) by (auto simp: filter_empty_conv)
  then obtain x xs where "filter (\<lambda>v0. normalise (table r) v0 = normalise (table r) v) vs = x # xs"
    by (cases "filter (\<lambda>v0. normalise (table r) v0 = normalise (table r) v) vs") auto
  with assms(1) show ?thesis by (simp add: keys_get_def requested_as_def)
qed

lemma fill_default_hit:
  "k \<in> set ks \<Longrightarrow> map_of (fill_default d keys ks items) (keys_get keys k) = Some d"
proof (induction ks arbitrary: items)
  case Nil
  then show ?case by simp
next
  case (Cons a ks)
  have keep: "\<And>x its. map_of its x = Some d \<Longrightarrow> map_of (fill_default d keys ks its) x = Some d"
  proof -
    fix x its show "map_of its x = Some d \<Longrightarrow> map_of (fill_default d keys ks its) x = Some d"
      by (induction ks arbitrary: its) (auto simp: update_conv')
  qed
  show ?case
  proof (cases "k = a")
    case True
    then show ?thesis by (simp add: keep update_conv')
  next
    case False
    with Cons show ?thesis by simp
  qed
qed

lemma fill_default_other:
  "map_of (fill_default d keys ks items) x = Some l \<Longrightarrow> l = d \<or> map_of items x = Some l"
proof (induction ks arbitrary: items)
  case Nil
  then show ?case by simp
next
  case (Cons a ks)
  from Cons.prems have "map_of (fill_default d keys ks (AList.update (keys_get keys a) d items)) x
                        = Some l"
    by simp
  from Cons.IH [OF this]
  have "l = d \<or> map_of (AList.update (keys_get keys a) d items) x = Some l" .
  then show ?case by (auto simp: update_conv' split: if_splits)
qed

lemma extends_refl [simp]: "extends l l"
  by (simp add: extends_def)

lemma extends_trans:
  assumes "extends a b" and "extends b c"
  shows "extends a c"
  unfolding extends_def
proof
  fix x
  have "map_of b x = map_of a x \<or> (map_of a x = None \<and> map_of b x = Some False \<and> is_key x)"
    using assms(1) by (simp add: extends_def)
  moreover
  have "map_of c x = map_of b x \<or> (map_of b x = None \<and> map_of c x = Some False \<and> is_key x)"
    using assms(2) by (simp add: extends_def)
  ultimately
  show "map_of c x = map_of a x \<or> (map_of a x = None \<and> map_of c x = Some False \<and> is_key x)"
    by auto
qed

lemma parent_is_key: "truthy (parent h n) \<Longrightarrow> is_key (parent h n)"
  by (auto simp: parent_def split: option.splits if_splits)

lemma is_key_hashable: "is_key x \<Longrightarrow> hashable x"
  by (cases x) (auto simp: is_key_def)

lemma lookup_parent_extends: "extends lookup (lookup_parent h ts n lookup)"
proof (induction h ts n lookup rule: lookup_parent.induct)
  case (1 h ts node_id lookup)
  let ?p = "parent h node_id"
  show ?case
  proof (cases "truthy ?p \<and> map_of ts ?p = None \<and> map_of lookup ?p = None")
    case True
    have a: "extends lookup (AList.update ?p False lookup)"
      using True by (auto simp: extends_def update_conv' parent_is_key)
    have b: "extends (AList.update ?p False lookup)
               (lookup_parent h ts ?p (AList.update ?p False lookup))"
      using "1.IH" [OF refl] True by simp
    have "lookup_parent h ts node_id lookup = lookup_parent h ts ?p (AList.update ?p False lookup)"
      using True by (subst lookup_parent.simps) (simp add: Let_def)
    with extends_trans [OF a b] show ?thesis by simp
  next
    case False
    then have "lookup_parent h ts node_id lookup = lookup"
      by (subst lookup_parent.simps) (auto simp: Let_def)
    then show ?thesis by simp
  qed
qed

lemma fold_lookup_parent_extends: "extends lookup (fold (lookup_parent h ts) ns lookup)"
proof (induction ns arbitrary: lookup)
  case Nil
  show ?case by simp
next
  case (Cons n ns)
  show ?case
    using extends_trans [OF lookup_parent_extends [of lookup h ts n] Cons [of "lookup_parent h ts n lookup"]]
    by simp
qed

lemma enqueue_parents_extends: "extends lookup (enqueue_parents h ts lookup)"
  by (cases h) (simp_all add: enqueue_parents_def fold_lookup_parent_extends)

lemma lookup_parent_range:
  "map_of (lookup_parent h ts n lookup) x \<noteq> None \<Longrightarrow>
   map_of lookup x \<noteq> None \<or> (\<exists>y. x = parent h y)"
proof (induction h ts n lookup rule: lookup_parent.induct)
  case (1 h ts node_id lookup)
  let ?p = "parent h node_id"
  show ?case
  proof (cases "truthy ?p \<and> map_of ts ?p = None \<and> map_of lookup ?p = None")
    case True
    have eq: "lookup_parent h ts node_id lookup
              = lookup_parent h ts ?p (AList.update ?p False lookup)"
      using True by (subst lookup_parent.simps) (simp add: Let_def)
    have "map_of (AList.update ?p False lookup) x \<noteq> None \<or> (\<exists>y. x = parent h y)"
      using "1.IH" [OF refl] True "1.prems" eq by simp
    then show ?thesis by (auto simp: update_conv' split: if_splits)
  next
    case False
    then have "lookup_parent h ts node_id lookup = lookup"
      by (subst lookup_parent.simps) (auto simp: Let_def)
    with "1.prems" show ?thesis by simp
  qed
qed

lemma fold_lookup_parent_range:
  "map_of (fold (lookup_parent h ts) ns lookup) x \<noteq> None \<Longrightarrow>
   map_of lookup x \<noteq> None \<or> (\<exists>y. x = parent h y)"
proof (induction ns arbitrary: lookup)
  case Nil
  then show ?case by simp
next
  case (Cons n ns)
  from Cons.IH [of "lookup_parent h ts n lookup"] Cons.prems
  have "map_of (lookup_parent h ts n lookup) x \<noteq> None \<or> (\<exists>y. x = parent h y)" by simp
  then show ?case using lookup_parent_range [of h ts n lookup x] by blast
qed

lemma enqueue_parents_range:
  "map_of (enqueue_parents (Some h) ts lookup) x \<noteq> None \<Longrightarrow>
   map_of lookup x \<noteq> None \<or> (\<exists>y. x = parent h y)"
  unfolding enqueue_parents_def using fold_lookup_parent_range [of h ts "map fst lookup" lookup x]
  by simp

subsection \<open>The default fetch and the loops over the fetched rows\<close>

lemma project_key [simp]: "map_of (select_fields (fs @ [k]) row) k = map_of row k"
  by (induction row) (auto simp: select_fields_def)

lemma lookup_rows_result:
  assumes "S3_lookup_rows e r t k vs fs = (res, r')"
  shows "r' = r\<lparr> queries := queries r + 1 \<rparr> \<and>
         (\<exists>sel. res = Inr sel \<and>
            (\<forall>row \<in> set sel. \<exists>kv \<in> set vs. map_of row k = Some kv) \<and>
            (\<forall>kv. (\<exists>row \<in> set sel. map_of row k = Some kv) = (kv \<in> set vs \<and> has_row e t k kv)))"
proof -
  let ?q = "\<lambda>row. case map_of row k of None \<Rightarrow> False
                   | Some kv \<Rightarrow> if length vs = 1 then kv = hd vs else kv \<in> set vs"
  let ?sel = "map (select_fields (fs @ [k])) (filter ?q (current_db e (tname t)))"
  have qm: "\<And>kv. ((length vs = Suc 0 \<longrightarrow> kv = hd vs) \<and> (length vs \<noteq> Suc 0 \<longrightarrow> kv \<in> set vs))
                 = (kv \<in> set vs)"
    by (cases vs) auto
  have q: "\<And>row. ?q row = (\<exists>kv \<in> set vs. map_of row k = Some kv)"
    by (simp add: qm split: option.split)
  have r: "res = Inr ?sel" "r' = r\<lparr> queries := queries r + 1 \<rparr>"
    using assms by (auto simp: S3_lookup_rows_def Let_def)
  have a: "\<forall>row \<in> set ?sel. \<exists>kv \<in> set vs. map_of row k = Some kv"
    using q by auto
  have b: "\<forall>kv. (\<exists>row \<in> set ?sel. map_of row k = Some kv) = (kv \<in> set vs \<and> has_row e t k kv)"
    using q by (auto simp: has_row_def list_ex_iff)
  from r a b show ?thesis by blast
qed

lemma rows_dict_result:
  "\<forall>row \<in> set rs. \<exists>kv. map_of row k = Some kv \<and> hashable kv \<Longrightarrow>
   \<exists>rws. rows_dict k rs acc = Inr rws \<and>
          fst ` set rws = fst ` set acc \<union> {kv. \<exists>row \<in> set rs. map_of row k = Some kv} \<and>
          (distinct (map fst acc) \<longrightarrow> distinct (map fst rws))"
proof (induction rs arbitrary: acc)
  case Nil
  show ?case by simp
next
  case (Cons row rs)
  from Cons.prems obtain kv where kv: "map_of row k = Some kv" "hashable kv" by auto
  have rest: "\<forall>row \<in> set rs. \<exists>kv. map_of row k = Some kv \<and> hashable kv"
    using Cons.prems by simp
  from Cons.IH [OF rest, of "AList.update kv row acc"] obtain rws where
    r: "rows_dict k rs (AList.update kv row acc) = Inr rws"
    and d: "fst ` set rws = fst ` set (AList.update kv row acc)
              \<union> {kv. \<exists>row \<in> set rs. map_of row k = Some kv}"
    and di: "distinct (map fst (AList.update kv row acc)) \<longrightarrow> distinct (map fst rws)"
    by blast
  have u: "fst ` set (AList.update kv row acc) = insert kv (fst ` set acc)"
    using dom_update [of kv row acc] by (simp add: dom_map_of_conv_image_fst)
  have "rows_dict k (row # rs) acc = Inr rws"
    using r kv by (simp add: row_get_def)
  moreover have "fst ` set rws = fst ` set acc \<union> {kv. \<exists>row \<in> set (row # rs). map_of row k = Some kv}"
    using d u kv by auto
  moreover have "distinct (map fst acc) \<longrightarrow> distinct (map fst rws)"
    using di by (simp add: distinct_update)
  ultimately show ?case by blast
qed

lemma represent_path_other:
  "S3_represent_path n e h rws v row r = (res, r') \<Longrightarrow> map_of rws kk = None \<Longrightarrow> v \<noteq> kk \<Longrightarrow>
   map_of (theset r') kk = map_of (theset r) kk"
proof (induction n arbitrary: v row r res r')
  case 0
  then show ?case by auto
next
  case (Suc n)
  show ?case
  proof (cases "map_of (theset r) v")
    case (Some l)
    with Suc.prems show ?thesis by auto
  next
    case None
    note nv = None
    show ?thesis
    proof (cases "truthy (parent h v) \<and> map_of (theset r) (parent h v) = None
                  \<and> map_of rws (parent h v) \<noteq> None")
      case True
      then obtain prow where prow: "map_of rws (parent h v) = Some prow" by auto
      obtain res1 r1 where rec: "S3_represent_path n e h rws (parent h v) prow r = (res1, r1)"
        by (cases "S3_represent_path n e h rws (parent h v) prow r") auto
      have pk: "parent h v \<noteq> kk" using prow Suc.prems(2) by auto
      from Suc.IH [OF rec Suc.prems(2) pk] have "map_of (theset r1) kk = map_of (theset r) kk" .
      with Suc.prems nv True prow rec show ?thesis
        by (auto simp: Let_def update_conv' split: sum.splits)
    next
      case False
      with Suc.prems nv show ?thesis
        by (auto simp: Let_def update_conv' split: sum.splits option.splits if_splits)
    qed
  qed
qed

lemma represent_paths_other:
  "represent_paths e h keys rws rs acc r = (res, r') \<Longrightarrow> map_of rws kk = None \<Longrightarrow>
   kk \<notin> fst ` set rs \<Longrightarrow>
   map_of (theset r') kk = map_of (theset r) kk \<and>
   (\<forall>acc'. res = Inr acc' \<longrightarrow> map_of (snd acc') kk = map_of (snd acc) kk)"
proof (induction rs arbitrary: acc r)
  case Nil
  then show ?case by auto
next
  case (Cons x rs)
  obtain items lookup where acc: "acc = (items, lookup)" by (cases acc)
  obtain kv row where x: "x = (kv, row)" by (cases x)
  have ne: "kv \<noteq> kk" "kk \<notin> fst ` set rs" using Cons.prems(3) x by auto
  show ?case
  proof (cases "map_of lookup kv = Some True")
    case False
    with Cons.prems(1) acc x
    have c: "represent_paths e h keys rws rs (items, AList.delete kv lookup) r = (res, r')"
      by simp
    from Cons.IH [OF c Cons.prems(2) ne(2)] ne(1) acc show ?thesis
      by (simp add: delete_conv')
  next
    case True
    obtain res1 r1 where p: "S3_represent_path (recursion_limit e) e h rws kv row r = (res1, r1)"
      by (cases "S3_represent_path (recursion_limit e) e h rws kv row r") auto
    have t1: "map_of (theset r1) kk = map_of (theset r) kk"
      using represent_path_other [OF p Cons.prems(2) ne(1)] .
    show ?thesis
    proof (cases res1)
      case (Inl err)
      with Cons.prems(1) acc x True p t1 show ?thesis by auto
    next
      case (Inr l)
      with Cons.prems(1) acc x True p
      have c: "represent_paths e h keys rws rs
                 (AList.update (keys_get keys kv) l items, AList.delete kv lookup) r1 = (res, r')"
        by simp
      from Cons.IH [OF c Cons.prems(2) ne(2)] ne(1) acc t1 show ?thesis
        by (simp add: delete_conv')
    qed
  qed
qed

lemma represent_flat_other:
  "represent_flat e keys rs acc r = (res, r') \<Longrightarrow> kk \<notin> fst ` set rs \<Longrightarrow>
   map_of (theset r') kk = map_of (theset r) kk \<and>
   (\<forall>acc'. res = Inr acc' \<longrightarrow> map_of (snd acc') kk = map_of (snd acc) kk)"
proof (induction rs arbitrary: acc r)
  case Nil
  then show ?case by auto
next
  case (Cons x rs)
  obtain items lookup where acc: "acc = (items, lookup)" by (cases acc)
  obtain kv row where x: "x = (kv, row)" by (cases x)
  have ne: "kv \<noteq> kk" "kk \<notin> fst ` set rs" using Cons.prems(2) x by auto
  show ?case
  proof (cases "represent_row e r row None")
    case (Inl err)
    with Cons.prems(1) acc x show ?thesis by auto
  next
    case (Inr l)
    with Cons.prems(1) acc x
    have c: "represent_flat e keys rs
               (AList.update (keys_get keys kv) l items, AList.delete kv lookup)
               (r\<lparr> theset := AList.update kv l (theset r) \<rparr>) = (res, r')"
      by simp
    from Cons.IH [OF c ne(2)] ne(1) acc show ?thesis
      by (simp add: delete_conv' update_conv')
  qed
qed

lemma represent_paths_skip:
  "\<forall>kv \<in> fst ` set rs. map_of lookup kv \<noteq> Some True \<Longrightarrow>
   \<exists>lookup'. represent_paths e h keys rws rs (items, lookup) r = (Inr (items, lookup'), r) \<and>
              (\<forall>x. map_of lookup' x = (if x \<in> fst ` set rs then None else map_of lookup x))"
proof (induction rs arbitrary: lookup)
  case Nil
  show ?case by simp
next
  case (Cons x rs)
  obtain kv row where x: "x = (kv, row)" by (cases x)
  have a: "map_of lookup kv \<noteq> Some True" using Cons.prems x by simp
  have b: "\<forall>kv' \<in> fst ` set rs. map_of (AList.delete kv lookup) kv' \<noteq> Some True"
    using Cons.prems by (auto simp: delete_conv')
  from Cons.IH [OF b] obtain lookup' where
    c: "represent_paths e h keys rws rs (items, AList.delete kv lookup) r = (Inr (items, lookup'), r)"
    and d: "\<forall>x. map_of lookup' x = (if x \<in> fst ` set rs then None
                                     else map_of (AList.delete kv lookup) x)"
    by blast
  have "represent_paths e h keys rws (x # rs) (items, lookup) r = (Inr (items, lookup'), r)"
    using a c x by simp
  moreover have "\<forall>y. map_of lookup' y = (if y \<in> fst ` set (x # rs) then None else map_of lookup y)"
    using d x by (auto simp: delete_conv')
  ultimately show ?case by blast
qed

lemma retrieve_default:
  assumes "\<not> custom_lookup r" and "list_all hashable (map fst lookup)"
  obtains rws r2 where
    "fetched r r2 (map fst lookup)" "theset r2 = theset r" "distinct (map fst rws)"
    "fst ` set rws = {kv \<in> fst ` set lookup. has_row e t k kv}"
    "retrieve e r t k keys h (items, lookup) =
             (case h of
                Some h0 \<Rightarrow> represent_paths e h0 keys rws rws (items, lookup) r2
              | None \<Rightarrow> represent_flat e keys rws (items, lookup) r2)"
proof -
  let ?fs = "if list_all (\<lambda>f. f \<in> set (tfields t)) (fields_list r) then fields_list r
             else filter (\<lambda>f. f \<in> set (tfields t)) (fields_list r)"
  let ?ks = "map fst lookup"
  obtain res1 r1 where c: "call_lookup_rows e r t k ?ks ?fs = (res1, r1)"
    by (cases "call_lookup_rows e r t k ?ks ?fs") auto
  have f1: "fetched r r1 ?ks" using call_lookup_rows_fetched [OF c] .
  have l: "S3_lookup_rows e (r\<lparr> trace := trace r @ [LookupRows ?ks] \<rparr>) t k ?ks ?fs = (res1, r1)"
    using c assms(1) by (simp add: call_lookup_rows_def Let_def)
  from lookup_rows_result [OF l] obtain sel where
    r1: "r1 = r\<lparr> trace := trace r @ [LookupRows ?ks], queries := queries r + 1 \<rparr>"
    and sel: "res1 = Inr sel"
    and s1: "\<forall>row \<in> set sel. \<exists>kv \<in> set ?ks. map_of row k = Some kv"
    and s2: "\<forall>kv. (\<exists>row \<in> set sel. map_of row k = Some kv) = (kv \<in> set ?ks \<and> has_row e t k kv)"
    by auto
  have hk: "\<forall>row \<in> set sel. \<exists>kv. map_of row k = Some kv \<and> hashable kv"
    using s1 assms(2) by (auto simp: list_all_iff)
  from rows_dict_result [OF hk, of "[]"] obtain rws where
    rd: "rows_dict k sel [] = Inr rws"
    and dom: "fst ` set rws = fst ` set [] \<union> {kv. \<exists>row \<in> set sel. map_of row k = Some kv}"
    and di: "distinct (map fst rws)"
    by auto
  let ?r2 = "r1\<lparr> rows := fold (\<lambda>(kv, row). AList.update kv row) rws (rows r1) \<rparr>"
  have a: "fetched r ?r2 ?ks" using f1 by simp
  have b: "theset ?r2 = theset r" using r1 by simp
  have d: "fst ` set rws = {kv \<in> fst ` set lookup. has_row e t k kv}"
    using dom s2 by auto
  have g: "retrieve e r t k keys h (items, lookup) =
             (case h of
                Some h0 \<Rightarrow> represent_paths e h0 keys rws rws (items, lookup) ?r2
              | None \<Rightarrow> represent_flat e keys rws (items, lookup) ?r2)"
    using c sel rd assms(1) by (simp add: retrieve_def Let_def)
  show ?thesis by (rule that [OF a b di d g])
qed

lemma retrieve_unresolved:
  assumes "\<not> custom_lookup r" and "list_all hashable (map fst lookup)"
    and "\<not> has_row e t k kk"
    and "retrieve e r t k keys h (items, lookup) = (res, r')"
  shows "map_of (theset r') kk = map_of (theset r) kk \<and>
         (\<forall>acc'. res = Inr acc' \<longrightarrow> map_of (snd acc') kk = map_of lookup kk)"
proof -
  from assms(1,2) obtain rws r2 where
    f: "fetched r r2 (map fst lookup)"
    and ts: "theset r2 = theset r"
    and di: "distinct (map fst rws)"
    and dom: "fst ` set rws = {kv \<in> fst ` set lookup. has_row e t k kv}"
    and rt: "retrieve e r t k keys h (items, lookup) =
             (case h of
                Some h0 \<Rightarrow> represent_paths e h0 keys rws rws (items, lookup) r2
              | None \<Rightarrow> represent_flat e keys rws (items, lookup) r2)"
    by (rule retrieve_default [where e = e and t = t and k = k and keys = keys and h = h
          and items = items])
  have nk: "kk \<notin> fst ` set rws" using dom assms(3) by simp
  then have nm: "map_of rws kk = None" by (simp add: map_of_eq_None_iff)
  show ?thesis
  proof (cases h)
    case None
    with rt assms(4) have "represent_flat e keys rws (items, lookup) r2 = (res, r')" by simp
    from represent_flat_other [OF this nk] ts show ?thesis by simp
  next
    case (Some h0)
    with rt assms(4) have "represent_paths e h0 keys rws rws (items, lookup) r2 = (res, r')"
      by simp
    from represent_paths_other [OF this nm nk] ts show ?thesis by simp
  qed
qed

lemma retrieve_nothing:
  assumes "\<not> custom_lookup r" and "list_all hashable (map fst lookup)"
    and "\<forall>x. map_of lookup x = Some True \<longrightarrow> \<not> has_row e t k x"
    and "h = None \<longrightarrow> (\<forall>x \<in> fst ` set lookup. map_of lookup x = Some True)"
  obtains lookup' r' where
    "retrieve e r t k keys h (items, lookup) = (Inr (items, lookup'), r')"
    "fetched r r' (map fst lookup)" "theset r' = theset r"
    "\<forall>x. map_of lookup x = Some True \<longrightarrow> map_of lookup' x = Some True"
proof -
  from assms(1,2) obtain rws r2 where
    f: "fetched r r2 (map fst lookup)"
    and ts: "theset r2 = theset r"
    and di: "distinct (map fst rws)"
    and dom: "fst ` set rws = {kv \<in> fst ` set lookup. has_row e t k kv}"
    and rt: "retrieve e r t k keys h (items, lookup) =
             (case h of
                Some h0 \<Rightarrow> represent_paths e h0 keys rws rws (items, lookup) r2
              | None \<Rightarrow> represent_flat e keys rws (items, lookup) r2)"
    by (rule retrieve_default [where e = e and t = t and k = k and keys = keys and h = h
          and items = items])
  show ?thesis
  proof (cases h)
    case None
    with assms(3,4) dom have "fst ` set rws = {}" by auto
    then have "rws = []" by simp
    with rt None have "retrieve e r t k keys h (items, lookup) = (Inr (items, lookup), r2)"
      by simp
    then show ?thesis using f ts by (rule that) simp
  next
    case (Some h0)
    have "\<forall>kv \<in> fst ` set rws. map_of lookup kv \<noteq> Some True"
      using dom assms(3) by auto
    from represent_paths_skip [OF this, of e h0 keys rws items r2] obtain lookup' where
      p: "represent_paths e h0 keys rws rws (items, lookup) r2 = (Inr (items, lookup'), r2)"
      and l: "\<forall>x. map_of lookup' x = (if x \<in> fst ` set rws then None else map_of lookup x)"
      by blast
    have m: "\<forall>x. map_of lookup x = Some True \<longrightarrow> map_of lookup' x = Some True"
      using l dom assms(3) by auto
    from rt Some p have "retrieve e r t k keys h (items, lookup) = (Inr (items, lookup'), r2)"
      by simp
    then show ?thesis using f ts m by (rule that)
  qed
qed

lemma pending_stage:
  assumes cf: "configured r t k" and hv: "list_all hashable vs"
  obtains keys items0 lookup1 where
    "\<forall>v. map_of items0 v = (if v \<in> set vs then cached r v else None)"
    "\<forall>kk. map_of keys kk =
        (case filter (\<lambda>v0. normalise (table r) v0 = kk) vs of
           [] \<Rightarrow> None | x # xs \<Rightarrow> Some (last (x # xs)))"
    "\<forall>x. (map_of lookup1 x = Some True) = (\<exists>v \<in> set vs. cached r v = None \<and> normalise (table r) v = x)"
    "get_hierarchy e r t = None \<longrightarrow> (\<forall>x \<in> fst ` set lookup1. map_of lookup1 x = Some True)"
    "list_all hashable (map fst lookup1)"
    "\<forall>x \<in> fst ` set lookup1. map_of lookup1 x = Some True \<or>
        (\<exists>h y. get_hierarchy e r t = Some h \<and> x = parent h y)"
    "S3_lookup e r vs None =
       (if \<exists>v \<in> set vs. cached r v = None
        then (case retrieve e r t k keys (get_hierarchy e r t) (items0, lookup1) of
                (Inl err, r2) \<Rightarrow> (Inl err, r2)
              | (Inr acc2, r2) \<Rightarrow>
                  (Inr (fill_default (default_repr r2) keys (map fst (snd acc2)) (fst acc2)), r2))
        else (Inr items0, r))"
proof -
  from check_values_result [OF hv, of r "[]" "[]" "[]"]
  obtain keys items0 lookup0 where
    c: "check_values r vs ([], [], []) = Inr (keys, items0, lookup0)"
    and i: "\<forall>v. map_of items0 v = (if v \<in> set vs \<and> cached r v \<noteq> None then cached r v
                                  else map_of [] v)"
    and l: "\<forall>x. map_of lookup0 x =
           (if x \<in> normalise (table r) ` set vs \<and> x \<noteq> PNone \<and> map_of (theset r) x = None
            then Some True else map_of [] x)"
    by blast
  let ?h = "get_hierarchy e r t"
  let ?l1 = "enqueue_parents ?h (theset r) lookup0"
  have ex: "extends lookup0 ?l1" by (rule enqueue_parents_extends)
  have i': "\<forall>v. map_of items0 v = (if v \<in> set vs then cached r v else None)"
    using i by auto
  have k': "\<forall>kk. map_of keys kk =
        (case filter (\<lambda>v0. normalise (table r) v0 = kk) vs of
           [] \<Rightarrow> None | x # xs \<Rightarrow> Some (last (x # xs)))"
    using check_values_keys [OF c] by (simp split: list.split)
  have l0: "\<And>x. (map_of lookup0 x = Some True)
             = (\<exists>v \<in> set vs. cached r v = None \<and> normalise (table r) v = x)"
    using l by (auto simp: cached_None)
  have l0n: "\<And>x. map_of lookup0 x = None \<or> map_of lookup0 x = Some True"
    using l by auto
  have t1: "\<forall>x. (map_of ?l1 x = Some True)
             = (\<exists>v \<in> set vs. cached r v = None \<and> normalise (table r) v = x)"
  proof
    fix x
    have "map_of ?l1 x = map_of lookup0 x \<or>
          (map_of lookup0 x = None \<and> map_of ?l1 x = Some False \<and> is_key x)"
      using ex by (simp add: extends_def)
    then have "(map_of ?l1 x = Some True) = (map_of lookup0 x = Some True)" by auto
    then show "(map_of ?l1 x = Some True)
             = (\<exists>v \<in> set vs. cached r v = None \<and> normalise (table r) v = x)"
      using l0 by simp
  qed
  have flat: "?h = None \<longrightarrow> (\<forall>x \<in> fst ` set ?l1. map_of ?l1 x = Some True)"
  proof
    assume "?h = None"
    then have "?l1 = lookup0" by (simp add: enqueue_parents_def)
    moreover have "\<forall>x \<in> fst ` set lookup0. map_of lookup0 x = Some True"
    proof
      fix x assume "x \<in> fst ` set lookup0"
      then have "map_of lookup0 x \<noteq> None" by (simp add: map_of_eq_None_iff)
      then show "map_of lookup0 x = Some True" using l0n [of x] by auto
    qed
    ultimately show "\<forall>x \<in> fst ` set ?l1. map_of ?l1 x = Some True" by simp
  qed
  have hk: "list_all hashable (map fst ?l1)"
  proof -
    have "\<And>x. x \<in> fst ` set ?l1 \<Longrightarrow> hashable x"
    proof -
      fix x assume "x \<in> fst ` set ?l1"
      then have a: "map_of ?l1 x \<noteq> None" by (simp add: map_of_eq_None_iff)
      have "map_of ?l1 x = map_of lookup0 x \<or>
            (map_of lookup0 x = None \<and> map_of ?l1 x = Some False \<and> is_key x)"
        using ex by (simp add: extends_def)
      then consider "map_of lookup0 x = Some True" | "is_key x"
        using a l0n [of x] by auto
      then show "hashable x"
      proof cases
        case 1
        then obtain v where "v \<in> set vs" "normalise (table r) v = x" using l0 by blast
        with hv show ?thesis by (auto simp: list_all_iff)
      next
        case 2
        then show ?thesis by (rule is_key_hashable)
      qed
    qed
    then show ?thesis by (auto simp: list_all_iff)
  qed
  have pr: "\<forall>x \<in> fst ` set ?l1. map_of ?l1 x = Some True \<or>
        (\<exists>h y. ?h = Some h \<and> x = parent h y)"
  proof
    fix x assume "x \<in> fst ` set ?l1"
    then have a: "map_of ?l1 x \<noteq> None" by (simp add: map_of_eq_None_iff)
    have b: "map_of ?l1 x = map_of lookup0 x \<or>
          (map_of lookup0 x = None \<and> map_of ?l1 x = Some False \<and> is_key x)"
      using ex by (simp add: extends_def)
    show "map_of ?l1 x = Some True \<or> (\<exists>h y. ?h = Some h \<and> x = parent h y)"
    proof (cases ?h)
      case None
      then have "?l1 = lookup0" by (simp add: enqueue_parents_def)
      then show ?thesis using a l0n [of x] by auto
    next
      case (Some h)
      from enqueue_parents_range [of h "theset r" lookup0 x] a Some
      have "map_of lookup0 x \<noteq> None \<or> (\<exists>y. x = parent h y)" by simp
      then show ?thesis
      proof
        assume "map_of lookup0 x \<noteq> None"
        then have "map_of lookup0 x = Some True" using l0n [of x] by auto
        then show ?thesis using b by auto
      next
        assume "\<exists>y. x = parent h y"
        then show ?thesis using Some by auto
      qed
    qed
  qed
  have run: "S3_lookup e r vs None =
       (if \<exists>v \<in> set vs. cached r v = None
        then (case retrieve e r t k keys ?h (items0, ?l1) of
                (Inl err, r2) \<Rightarrow> (Inl err, r2)
              | (Inr acc2, r2) \<Rightarrow>
                  (Inr (fill_default (default_repr r2) keys (map fst (snd acc2)) (fst acc2)), r2))
        else (Inr items0, r))"
  proof (cases "\<exists>v \<in> set vs. cached r v = None")
    case False
    have "\<forall>x. map_of lookup0 x = None"
    proof
      fix x show "map_of lookup0 x = None" using l0 [of x] l0n [of x] False by auto
    qed
    then have "lookup0 = []" by (cases lookup0) (auto split: if_splits)
    with c cf have eq: "S3_lookup e r vs None = (Inr items0, r)"
      by (simp add: S3_lookup_def configured_def)
    show ?thesis by (subst if_not_P [OF False]) (rule eq)
  next
    case True
    then obtain x where x: "map_of lookup0 x = Some True" using l0 by blast
    then have n0: "lookup0 \<noteq> []" by auto
    have "map_of ?l1 x = Some True" using t1 l0 x by simp
    then have n1: "?l1 \<noteq> []" by auto
    from c cf n0 n1 have eq: "S3_lookup e r vs None =
        (case retrieve e r t k keys ?h (items0, ?l1) of
                (Inl err, r2) \<Rightarrow> (Inl err, r2)
              | (Inr acc2, r2) \<Rightarrow>
                  (Inr (fill_default (default_repr r2) keys (map fst (snd acc2)) (fst acc2)), r2))"
      by (simp add: S3_lookup_def configured_def Let_def)
    show ?thesis by (subst if_P [OF True]) (rule eq)
  qed
  show ?thesis
    by (rule that [of items0 keys ?l1]) (rule i' k' t1 flat hk pr run)+
qed

lemma lookup_unresolved_key:
  assumes cf: "configured r t k"
    and v: "v \<in> set vs" "cached r v = None" "\<not> has_row e t k (normalise (table r) v)"
    and run: "S3_lookup e r vs None = (Inr items, r')"
  shows "map_of items (requested_as r vs v) = Some (default_repr r) \<and>
         map_of (theset r') (normalise (table r) v) = None"
proof -
  let ?kk = "normalise (table r) v"
  have hv: "list_all hashable vs"
  proof (cases "check_values r vs ([], [], [])")
    case (Inl err)
    with run show ?thesis by (simp add: S3_lookup_def)
  next
    case (Inr res)
    then show ?thesis by (rule check_values_hashable)
  qed
  from cf hv obtain keys items0 lookup1 where
    i0: "\<forall>v. map_of items0 v = (if v \<in> set vs then cached r v else None)"
    and k: "\<forall>kk. map_of keys kk =
        (case filter (\<lambda>v0. normalise (table r) v0 = kk) vs of
           [] \<Rightarrow> None | x # xs \<Rightarrow> Some (last (x # xs)))"
    and t: "\<forall>x. (map_of lookup1 x = Some True) = (\<exists>v \<in> set vs. cached r v = None \<and> normalise (table r) v = x)"
    and fl: "get_hierarchy e r t = None \<longrightarrow> (\<forall>x \<in> fst ` set lookup1. map_of lookup1 x = Some True)"
    and hk: "list_all hashable (map fst lookup1)"
    and pr: "\<forall>x \<in> fst ` set lookup1. map_of lookup1 x = Some True \<or>
        (\<exists>h y. get_hierarchy e r t = Some h \<and> x = parent h y)"
    and eq: "S3_lookup e r vs None =
       (if \<exists>v \<in> set vs. cached r v = None
        then (case retrieve e r t k keys (get_hierarchy e r t) (items0, lookup1) of
                (Inl err, r2) \<Rightarrow> (Inl err, r2)
              | (Inr acc2, r2) \<Rightarrow>
                  (Inr (fill_default (default_repr r2) keys (map fst (snd acc2)) (fst acc2)), r2))
        else (Inr items0, r))"
    by (rule pending_stage [where e = e])
  have p: "\<exists>v \<in> set vs. cached r v = None" using v by blast
  obtain res2 r2 where rt: "retrieve e r t k keys (get_hierarchy e r t) (items0, lookup1) = (res2, r2)"
    by (cases "retrieve e r t k keys (get_hierarchy e r t) (items0, lookup1)") auto
  have nc: "\<not> custom_lookup r" using cf by (simp add: configured_def)
  from eq run rt obtain acc2 where
    r2: "res2 = Inr acc2" "r' = r2"
    "items = fill_default (default_repr r2) keys (map fst (snd acc2)) (fst acc2)"
    by (simp add: if_P [OF p] split: sum.splits)
  from retrieve_unresolved [OF nc hk v(3) rt] r2
  have ts: "map_of (theset r') ?kk = map_of (theset r) ?kk"
    and lk: "map_of (snd acc2) ?kk = map_of lookup1 ?kk"
    by simp_all
  have "map_of lookup1 ?kk = Some True" using t v by blast
  with lk have "?kk \<in> set (map fst (snd acc2))"
    by (force dest: map_of_SomeD)
  from fill_default_hit [OF this]
  have "map_of items (keys_get keys ?kk) = Some (default_repr r2)" using r2 by simp
  moreover have "default_repr r2 = default_repr r"
    using retrieve_fetched [OF rt] static_fields(5) [of r2 r] by (simp add: fetched_def)
  moreover have "map_of (theset r) ?kk = None" using v(2) by (simp add: cached_None)
  ultimately show ?thesis using ts keys_get_requested [OF k v(1)] by simp
qed

lemma lookup_unresolved_returns:
  assumes cf: "configured r t k" and hv: "list_all hashable vs"
    and nr: "\<forall>w \<in> set vs. cached r w = None \<longrightarrow> \<not> has_row e t k (normalise (table r) w)"
  shows "\<exists>items r'. S3_lookup e r vs None = (Inr items, r') \<and> theset r' = theset r \<and>
           (if \<exists>w \<in> set vs. cached r w = None then \<exists>ks. fetched r r' ks else r' = r)"
proof -
  from cf hv obtain keys items0 lookup1 where
    i0: "\<forall>v. map_of items0 v = (if v \<in> set vs then cached r v else None)"
    and k: "\<forall>kk. map_of keys kk =
        (case filter (\<lambda>v0. normalise (table r) v0 = kk) vs of
           [] \<Rightarrow> None | x # xs \<Rightarrow> Some (last (x # xs)))"
    and t: "\<forall>x. (map_of lookup1 x = Some True) = (\<exists>v \<in> set vs. cached r v = None \<and> normalise (table r) v = x)"
    and fl: "get_hierarchy e r t = None \<longrightarrow> (\<forall>x \<in> fst ` set lookup1. map_of lookup1 x = Some True)"
    and hk: "list_all hashable (map fst lookup1)"
    and pr: "\<forall>x \<in> fst ` set lookup1. map_of lookup1 x = Some True \<or>
        (\<exists>h y. get_hierarchy e r t = Some h \<and> x = parent h y)"
    and eq: "S3_lookup e r vs None =
       (if \<exists>v \<in> set vs. cached r v = None
        then (case retrieve e r t k keys (get_hierarchy e r t) (items0, lookup1) of
                (Inl err, r2) \<Rightarrow> (Inl err, r2)
              | (Inr acc2, r2) \<Rightarrow>
                  (Inr (fill_default (default_repr r2) keys (map fst (snd acc2)) (fst acc2)), r2))
        else (Inr items0, r))"
    by (rule pending_stage [where e = e])
  show ?thesis
  proof (cases "\<exists>w \<in> set vs. cached r w = None")
    case False
    have "S3_lookup e r vs None = (Inr items0, r)"
      using eq by (simp only: if_not_P [OF False])
    then show ?thesis by (simp add: if_not_P [OF False])
  next
    case True
    have nc: "\<not> custom_lookup r" using cf by (simp add: configured_def)
    have un: "\<forall>x. map_of lookup1 x = Some True \<longrightarrow> \<not> has_row e t k x"
      using t nr by auto
    from nc hk un fl obtain lookup' r2 where
      rt: "retrieve e r t k keys (get_hierarchy e r t) (items0, lookup1) = (Inr (items0, lookup'), r2)"
      and f: "fetched r r2 (map fst lookup1)" and ts: "theset r2 = theset r"
      and m: "\<forall>x. map_of lookup1 x = Some True \<longrightarrow> map_of lookup' x = Some True"
      by (rule retrieve_nothing [where keys = keys and items = items0])
    have a: "S3_lookup e r vs None
          = (Inr (fill_default (default_repr r2) keys (map fst lookup') items0), r2)"
      using eq rt by (simp add: if_P [OF True])
    have b: "\<exists>ks. fetched r r2 ks" using f by (rule exI)
    show ?thesis
      by (subst if_P [OF True], rule exI, rule exI, intro conjI) (rule a ts b)+
  qed
qed

lemma org_ready_configured: "configured org_ready org_table ''id''"
  by code_simp

subsection \<open>The entry points and the queue of lazy values\<close>



lemma bulk_calls_append [simp]: "bulk_calls (xs @ ys) = bulk_calls xs @ bulk_calls ys"
  by (simp add: bulk_calls_def)

lemma bulk_calls_single [simp]:
  "bulk_calls [Bulk v] = [v]" "bulk_calls [LookupRows ks] = []" "bulk_calls [] = []"
  by (simp_all add: bulk_calls_def)

lemma lookup_keeps_queue:
  assumes "S3_lookup e r vs rows_p = (res, r')"
  shows "bulk_calls (trace r') = bulk_calls (trace r) \<and> lazy r' = lazy r"
  using lookup_effect [OF assms] static_fields(11) [of r' r]
  by (auto simp: frame_def fetched_def)

lemma setup_keeps_queue:
  assumes "S3_setup e r = (res, r')"
  shows "bulk_calls (trace r') = bulk_calls (trace r) \<and> lazy r' = lazy r"
  using setup_keeps(1,3) [of e r] assms by simp

lemma multiple_keeps_queue:
  assumes "multiple e r v rows_p lt sl = (res, r')"
  shows "bulk_calls (trace r') = bulk_calls (trace r) \<and> lazy r' = lazy r"
proof -
  obtain res0 r0 where s: "S3_setup e r = (res0, r0)" by (cases "S3_setup e r") auto
  note k0 = setup_keeps_queue [OF s]
  show ?thesis
  proof (cases res0)
    case (Inl err)
    with assms s k0 show ?thesis by (simp add: multiple_def)
  next
    case (Inr u)
    let ?vs = "if rows_given rows_p \<and> table r0 \<noteq> None
               then rows_keys (key r0) (case rows_p of Some rs \<Rightarrow> rs | None \<Rightarrow> [])
               else if list_type r0 \<and> lt then flatten v else Inr (as_list v)"
    show ?thesis
    proof (cases ?vs)
      case (Inl err)
      with assms s k0 Inr show ?thesis by (simp add: multiple_def Let_def)
    next
      case vs: (Inr vs)
      show ?thesis
      proof (cases "vs = []")
        case True
        with assms s k0 Inr vs show ?thesis by (simp add: multiple_def Let_def)
      next
        case False
        obtain res1 r1 where l: "S3_lookup e r0 vs rows_p = (res1, r1)"
          by (cases "S3_lookup e r0 vs rows_p") auto
        note k1 = lookup_keeps_queue [OF l]
        have "r' = r1"
          using assms s Inr vs False l
          by (simp add: multiple_def Let_def split: sum.splits if_splits)
        with k0 k1 show ?thesis by simp
      qed
    qed
  qed
qed

lemma call_keeps_queue:
  assumes "S3_call e r v row sl = (res, r')"
  shows "bulk_calls (trace r') = bulk_calls (trace r) \<and> lazy r' = lazy r"
proof -
  obtain res0 r0 where s: "S3_setup e r = (res0, r0)" by (cases "S3_setup e r") auto
  note k0 = setup_keeps_queue [OF s]
  show ?thesis
  proof (cases res0)
    case (Inl err)
    with assms s k0 show ?thesis by (simp add: S3_call_def)
  next
    case (Inr u)
    show ?thesis
    proof (cases "list_type r0")
      case True
      show ?thesis
      proof (cases "row_truthy row \<and> table r0 \<noteq> None")
        case True
        with assms s k0 Inr \<open>list_type r0\<close> show ?thesis by (auto simp: S3_call_def Let_def split: if_splits)
      next
        case False
        with assms s Inr \<open>list_type r0\<close>
        have "multiple e r0 v None False (sl \<and> show_link r0) = (res, r')"
          by (auto simp: S3_call_def Let_def split: if_splits)
        from multiple_keeps_queue [OF this] k0 show ?thesis by simp
      qed
    next
      case False
      let ?v1 = "if row_truthy row \<and> table r0 \<noteq> None
                 then row_key (key r0) (case row of Some rw \<Rightarrow> rw | None \<Rightarrow> [])
                 else Inr v"
      show ?thesis
      proof (cases ?v1)
        case (Inl err)
        with assms s k0 Inr False show ?thesis by (auto simp: S3_call_def Let_def split: if_splits)
      next
        case v1: (Inr v1)
        show ?thesis
        proof (cases "truthy v1")
          case nt: False
          with assms s k0 Inr False v1 show ?thesis by (auto simp: S3_call_def Let_def split: if_splits)
        next
          case True
          obtain res1 r1 where l: "S3_lookup e r0 [v1] (map_option (\<lambda>rw. [rw]) row) = (res1, r1)"
            by (cases "S3_lookup e r0 [v1] (map_option (\<lambda>rw. [rw]) row)") auto
          note k1 = lookup_keeps_queue [OF l]
          have "r' = r1"
            using assms s Inr False v1 True l
            by (auto simp: S3_call_def Let_def split: sum.splits option.splits if_splits)
          with k0 k1 show ?thesis by simp
        qed
      qed
    qed
  qed
qed

lemma bulk_rows_frame:
  "bulk_rows k rs acc r = (res, r') \<Longrightarrow> frame r r'"
proof (induction rs arbitrary: acc r)
  case Nil
  then show ?case by auto
next
  case (Cons row rs)
  show ?case
  proof (cases "row_key k row")
    case (Inl err)
    with Cons.prems show ?thesis by auto
  next
    case (Inr kv)
    show ?thesis
    proof (cases "hashable kv")
      case False
      with Cons.prems Inr show ?thesis by auto
    next
      case True
      with Cons.prems Inr
      have "bulk_rows k rs (acc @ [kv]) (r\<lparr> rows := AList.update kv row (rows r) \<rparr>) = (res, r')"
        by simp
      from Cons.IH [OF this] show ?thesis by (simp add: frame_def static_def)
    qed
  qed
qed

lemma frame_keeps_queue:
  assumes "frame r r'"
  shows "bulk_calls (trace r') = bulk_calls (trace r) \<and> lazy r' = lazy r"
  using assms static_fields(11) [of r' r] by (simp add: frame_def)

lemma bulk_adds_one:
  assumes "bulk e r v rows_p lt sl = (res, r')"
  shows "bulk_calls (trace r') = bulk_calls (trace r) @ [v] \<and> lazy r' = lazy r"
proof -
  let ?r0 = "r\<lparr> trace := trace r @ [Bulk v] \<rparr>"
  obtain res1 r1 where s: "S3_setup e ?r0 = (res1, r1)" by (cases "S3_setup e ?r0") auto
  have k1: "bulk_calls (trace r1) = bulk_calls (trace r) @ [v]" "lazy r1 = lazy r"
    using setup_keeps_queue [OF s] by simp_all
  show ?thesis
  proof (cases res1)
    case (Inl err)
    with assms s k1 show ?thesis by (simp add: bulk_def Let_def)
  next
    case (Inr u)
    let ?g = "if rows_given rows_p \<and> table r1 \<noteq> None
              then bulk_rows (key r1) (case rows_p of Some rs \<Rightarrow> rs | None \<Rightarrow> []) [] r1
              else if list_type r1 \<and> lt then (flatten v, r1) else (Inr (as_list v), r1)"
    obtain res2 r2 where g: "?g = (res2, r2)" by (cases ?g) auto
    have "frame r1 r2"
      using g by (auto split: if_splits dest: bulk_rows_frame)
    from frame_keeps_queue [OF this] k1
    have k2: "bulk_calls (trace r2) = bulk_calls (trace r) @ [v]" "lazy r2 = lazy r"
      by simp_all
    show ?thesis
    proof (cases res2)
      case (Inl err)
      with assms s Inr g k2 show ?thesis by (simp add: bulk_def Let_def)
    next
      case vs: (Inr vs)
      show ?thesis
      proof (cases "vs = []")
        case True
        with assms s Inr g vs k2 show ?thesis by (simp add: bulk_def Let_def)
      next
        case False
        obtain res3 r3 where l: "S3_lookup e r2 vs rows_p = (res3, r3)"
          by (cases "S3_lookup e r2 vs rows_p") auto
        have "r' = r3"
          using assms s Inr g vs False l by (simp add: bulk_def Let_def split: sum.splits)
        with lookup_keeps_queue [OF l] k2 show ?thesis by simp
      qed
    qed
  qed
qed

lemma flush_queue:
  assumes "flush_lazy e r = (res, r')"
  shows "bulk_calls (trace r') = bulk_calls (trace r) @ (if lazy r \<noteq> [] then [PList (lazy r)] else [])
         \<and> ((\<exists>lbls. res = Inr lbls) \<longrightarrow> lazy r' = [])"
proof (cases "lazy r = []")
  case True
  with assms show ?thesis by (auto simp: flush_lazy_def)
next
  case False
  obtain res1 r1 where b: "bulk e r (PList (lazy r)) None True True = (res1, r1)"
    by (cases "bulk e r (PList (lazy r)) None True True") auto
  from bulk_adds_one [OF b] assms False b show ?thesis
    by (auto simp: flush_lazy_def split: sum.splits)
qed

lemma represent_queue:
  assumes "lazy_represent e a r = (res, r') \<or> lazy_render e a r = (res, r')"
  shows "bulk_calls (trace r') = bulk_calls (trace r) @ (if lazy r \<noteq> [] then [PList (lazy r)] else [])
         \<and> ((\<exists>out. res = Inr out) \<longrightarrow> lazy r' = [])"
proof -
  obtain res1 r1 where f: "flush_lazy e r = (res1, r1)" by (cases "flush_lazy e r") auto
  note q = flush_queue [OF f]
  show ?thesis
  proof (cases res1)
    case (Inl err)
    with assms f q show ?thesis by (auto simp: lazy_represent_def lazy_render_def)
  next
    case (Inr lbls)
    with q have l1: "lazy r1 = []" by simp
    have "bulk_calls (trace r') = bulk_calls (trace r1) \<and> lazy r' = lazy r1"
      using assms f Inr
      by (auto simp: lazy_represent_def lazy_render_def Let_def
               split: if_splits sum.splits
               dest: multiple_keeps_queue call_keeps_queue)
    with q l1 show ?thesis by simp
  qed
qed

subsection \<open>Paths of a hierarchy\<close>

lemma py_format_plain:
  "CHR ''%'' \<notin> set sep \<Longrightarrow> py_format (sep @ ''%s'') [y] = Inr (sep @ y)"
proof (induction sep)
  case Nil
  show ?case by simp
next
  case (Cons c cs)
  then have ih: "py_format (cs @ ''%s'') [y] = Inr (cs @ y)" and c: "c \<noteq> CHR ''%''"
    by auto
  obtain d ds where d: "cs @ ''%s'' = d # ds" by (cases "cs @ ''%s''") auto
  show ?case using ih c d by simp
qed

lemma py_format_pair:
  "CHR ''%'' \<notin> set sep \<Longrightarrow> py_format (''%s'' @ sep @ ''%s'') [x, y] = Inr (x @ sep @ y)"
  using py_format_plain [of sep y] by simp

lemma rows_dict_map_of:
  "rows_dict k rs acc = Inr rws \<Longrightarrow>
   map_of rws x =
     (case filter (\<lambda>row. map_of row k = Some x) rs of
        [] \<Rightarrow> map_of acc x
      | y # ys \<Rightarrow> Some (last (y # ys)))"
proof (induction rs arbitrary: acc)
  case Nil
  then show ?case by simp
next
  case (Cons row rs)
  from Cons.prems obtain kv where kv: "map_of row k = Some kv"
    and rest: "rows_dict k rs (AList.update kv row acc) = Inr rws"
    by (auto simp: row_get_def split: option.splits if_splits)
  from Cons.IH [OF rest] kv show ?case
    by (auto simp: update_conv' split: list.splits)
qed

lemma select_fields_map_of:
  "f \<in> set fs \<Longrightarrow> map_of (select_fields fs row) f = map_of row f"
  by (induction row) (auto simp: select_fields_def)

lemma represent_row_static:
  "static r' = static r \<Longrightarrow> represent_row e r' row p = represent_row e r row p"
proof -
  have f: "\<And>r. slabels (static r) = slabels r" "\<And>r. clabels (static r) = clabels r"
    "\<And>r. labels (static r) = labels r" "\<And>r. fields_list (static r) = fields_list r"
    "\<And>r. field_sep (static r) = field_sep r" "\<And>r. none (static r) = none r"
    "\<And>r. translate (static r) = translate r" "\<And>r. hierarchy (static r) = hierarchy r"
    "\<And>r. htemplate (static r) = htemplate r"
    by (simp_all add: static_def)
  have a: "\<And>r. represent_row e (static r) row p = represent_row e r row p"
    unfolding represent_row_def f by (rule refl)
  assume "static r' = static r"
  then show ?thesis using a [of r'] a [of r] by simp
qed


lemma filter_selected:
  "filter (\<lambda>row. map_of row k = Some x)
     (map (select_fields (fs @ [k]))
        (filter (\<lambda>row. case map_of row k of
                          None \<Rightarrow> False
                        | Some kv \<Rightarrow> if length vs = 1 then kv = hd vs else kv \<in> set vs) db))
   = (if x \<in> set vs
      then map (select_fields (fs @ [k])) (filter (\<lambda>row. map_of row k = Some x) db)
      else [])"
proof -
  have qm: "\<And>kv. ((length vs = Suc 0 \<longrightarrow> kv = hd vs) \<and> (length vs \<noteq> Suc 0 \<longrightarrow> kv \<in> set vs))
                 = (kv \<in> set vs)"
    by (cases vs) auto
  have q: "(\<lambda>row. case map_of row k of
                          None \<Rightarrow> False
                        | Some kv \<Rightarrow> if length vs = 1 then kv = hd vs else kv \<in> set vs)
           = (\<lambda>row. \<exists>kv \<in> set vs. map_of row k = Some kv)"
    by (rule ext) (simp add: qm split: option.split)
  show ?thesis unfolding q
    by (induction db) auto
qed

lemma retrieve_rows:
  assumes nc: "\<not> custom_lookup r" and hk: "list_all hashable (map fst lookup)"
    and fs: "fs = (if list_all (\<lambda>f. f \<in> set (tfields t)) (fields_list r) then fields_list r
                   else filter (\<lambda>f. f \<in> set (tfields t)) (fields_list r))"
  obtains rws r2 where
    "fetched r r2 (map fst lookup)" "theset r2 = theset r" "distinct (map fst rws)"
    "\<forall>x. map_of rws x = (if x \<in> fst ` set lookup
                          then map_option (select_fields (fs @ [k])) (find_row e t k x)
                          else None)"
    "retrieve e r t k keys h (items, lookup) =
             (case h of
                Some h0 \<Rightarrow> represent_paths e h0 keys rws rws (items, lookup) r2
              | None \<Rightarrow> represent_flat e keys rws (items, lookup) r2)"
proof -
  let ?ks = "map fst lookup"
  let ?q = "\<lambda>row. case map_of row k of None \<Rightarrow> False
                   | Some kv \<Rightarrow> if length ?ks = 1 then kv = hd ?ks else kv \<in> set ?ks"
  let ?sel = "map (select_fields (fs @ [k])) (filter ?q (current_db e (tname t)))"
  let ?r1 = "r\<lparr> trace := trace r @ [LookupRows ?ks], queries := queries r + 1 \<rparr>"
  have c: "call_lookup_rows e r t k ?ks fs = (Inr ?sel, ?r1)"
    using nc by (simp add: call_lookup_rows_def S3_lookup_rows_def Let_def)
  have f1: "fetched r ?r1 ?ks" using call_lookup_rows_fetched [OF c] .
  have fl: "\<And>x. filter (\<lambda>row. map_of row k = Some x) ?sel
        = (if x \<in> set ?ks
           then map (select_fields (fs @ [k]))
                  (filter (\<lambda>row. map_of row k = Some x) (current_db e (tname t)))
           else [])"
    by (rule filter_selected)
  have hk2: "\<forall>row \<in> set ?sel. \<exists>kv. map_of row k = Some kv \<and> hashable kv"
  proof
    fix row assume m: "row \<in> set ?sel"
    then obtain kv where kv: "map_of row k = Some kv"
      by (auto split: option.splits)
    then have "row \<in> set (filter (\<lambda>row. map_of row k = Some kv) ?sel)"
      using m by simp
    then have "kv \<in> set ?ks" unfolding fl by (auto split: if_splits)
    then have "hashable kv" using hk by (auto simp: list_all_iff)
    with kv show "\<exists>kv. map_of row k = Some kv \<and> hashable kv" by simp
  qed
  from rows_dict_result [OF hk2, of "[]"] obtain rws where
    rd: "rows_dict k ?sel [] = Inr rws"
    and di: "distinct (map fst rws)"
    by auto
  let ?r2 = "?r1\<lparr> rows := fold (\<lambda>(kv, row). AList.update kv row) rws (rows ?r1) \<rparr>"
  have a: "fetched r ?r2 ?ks" using f1 by simp
  have b: "theset ?r2 = theset r" by simp
  have m: "\<forall>x. map_of rws x = (if x \<in> fst ` set lookup
                          then map_option (select_fields (fs @ [k])) (find_row e t k x)
                          else None)"
  proof
    fix x
    show "map_of rws x = (if x \<in> fst ` set lookup
                          then map_option (select_fields (fs @ [k])) (find_row e t k x)
                          else None)"
    proof (cases "x \<in> set ?ks")
      case False
      then show ?thesis unfolding rows_dict_map_of [OF rd, of x] fl by simp
    next
      case True
      show ?thesis
      proof (cases "filter (\<lambda>row. map_of row k = Some x) (current_db e (tname t))")
        case Nil
        then show ?thesis unfolding rows_dict_map_of [OF rd, of x] fl find_row_def
          using True by simp
      next
        case (Cons z zs)
        then show ?thesis unfolding rows_dict_map_of [OF rd, of x] fl find_row_def
          using True by (simp add: last_map)
      qed
    qed
  qed
  have g: "retrieve e r t k keys h (items, lookup) =
             (case h of
                Some h0 \<Rightarrow> represent_paths e h0 keys rws rws (items, lookup) ?r2
              | None \<Rightarrow> represent_flat e keys rws (items, lookup) ?r2)"
    using c rd nc fs by (simp add: retrieve_def Let_def split: option.split)
  show ?thesis by (rule that [OF a b di m g])
qed

lemma represent_path_result:
  "S3_represent_path n e h rws v row r = (Inr l, r') \<Longrightarrow> map_of (theset r') v = Some l"
  by (cases n)
    (auto simp: Let_def update_conv' split: option.splits sum.splits if_splits prod.splits)

lemma represent_paths_single:
  assumes "distinct (map fst rs)" and "(A, rowA) \<in> set rs" and "map_of lookup A = Some True"
    and "\<forall>x. x \<noteq> A \<longrightarrow> map_of lookup x \<noteq> Some True"
    and "S3_represent_path (recursion_limit e) e h rws A rowA r = (res, r1)"
  shows "case res of
           Inl err \<Rightarrow> represent_paths e h keys rws rs (items, lookup) r = (Inl err, r1)
         | Inr l \<Rightarrow>
             (\<exists>lookup'. represent_paths e h keys rws rs (items, lookup) r =
                  (Inr (AList.update (keys_get keys A) l items, lookup'), r1) \<and>
                (\<forall>x. map_of lookup' x = (if x \<in> fst ` set rs then None else map_of lookup x)))"
  using assms
proof (induction rs arbitrary: lookup)
  case Nil
  then show ?case by simp
next
  case (Cons x rs)
  obtain kv row where x: "x = (kv, row)" by (cases x)
  show ?case
  proof (cases "kv = A")
    case True
    have nin: "A \<notin> fst ` set rs" using Cons.prems(1) x True by auto
    have row: "row = rowA" using Cons.prems(2) x True nin by (auto simp: image_iff)
    show ?thesis
    proof (cases res)
      case (Inl err)
      then show ?thesis using Cons.prems(3,5) x True row by simp
    next
      case (Inr l)
      have b: "\<forall>kv' \<in> fst ` set rs. map_of (AList.delete A lookup) kv' \<noteq> Some True"
        using Cons.prems(4) by (auto simp: delete_conv')
      from represent_paths_skip [OF b, of e h keys rws "AList.update (keys_get keys A) l items" r1]
      obtain lookup' where
        c: "represent_paths e h keys rws rs
              (AList.update (keys_get keys A) l items, AList.delete A lookup) r1
            = (Inr (AList.update (keys_get keys A) l items, lookup'), r1)"
        and d: "\<forall>x. map_of lookup' x = (if x \<in> fst ` set rs then None
                                         else map_of (AList.delete A lookup) x)"
        by blast
      have s: "represent_paths e h keys rws (x # rs) (items, lookup) r
               = (Inr (AList.update (keys_get keys A) l items, lookup'), r1)"
        using Cons.prems(3,5) x True row Inr c by simp
      have t: "\<forall>y. map_of lookup' y = (if y \<in> fst ` set (x # rs) then None else map_of lookup y)"
        using d x True by (auto simp: delete_conv')
      show ?thesis unfolding Inr using s t by auto
    qed
  next
    case False
    have nt: "map_of lookup kv \<noteq> Some True" using Cons.prems(4) False by simp
    have s: "represent_paths e h keys rws (x # rs) (items, lookup) r
             = represent_paths e h keys rws rs (items, AList.delete kv lookup) r"
      using nt x by simp
    have p1: "distinct (map fst rs)" using Cons.prems(1) by simp
    have p2: "(A, rowA) \<in> set rs" using Cons.prems(2) x False by auto
    have p3: "map_of (AList.delete kv lookup) A = Some True"
      using Cons.prems(3) False by (simp add: delete_conv')
    have p4: "\<forall>x. x \<noteq> A \<longrightarrow> map_of (AList.delete kv lookup) x \<noteq> Some True"
      using Cons.prems(4) by (auto simp: delete_conv')
    note ih = Cons.IH [OF p1 p2 p3 p4 Cons.prems(5)]
    show ?thesis
    proof (cases res)
      case (Inl err)
      then show ?thesis using ih s by simp
    next
      case (Inr l)
      with ih obtain lookup' where
        c: "represent_paths e h keys rws rs (items, AList.delete kv lookup) r
            = (Inr (AList.update (keys_get keys A) l items, lookup'), r1)"
        and d: "\<forall>x. map_of lookup' x = (if x \<in> fst ` set rs then None
                                         else map_of (AList.delete kv lookup) x)"
        by auto
      have t: "\<forall>y. map_of lookup' y = (if y \<in> fst ` set (x # rs) then None else map_of lookup y)"
        using d x by (auto simp: delete_conv')
      show ?thesis unfolding Inr using s c t by auto
    qed
  qed
qed


lemma represent_row_theset [simp]:
  "represent_row e (r\<lparr> theset := ts \<rparr>) row p = represent_row e r row p"
  by (rule represent_row_static) (simp add: static_def)

lemma path_chain:
  assumes unc: "map_of (theset r) A = None" "map_of (theset r) B = None"
      "map_of (theset r) C = None"
    and par: "parent h A = B" "parent h B = C" "parent h C = PNone" "truthy B" "truthy C"
    and rws: "map_of rws B = Some rowB" "map_of rws C = Some rowC"
    and rr: "represent_row e r rowC None = Inr lC" "represent_row e r rowB (Some lC) = Inr lB"
      "represent_row e r rowA (Some lB) = Inr lA"
  shows "fst (S3_represent_path (Suc (Suc (Suc n))) e h rws A rowA r) = Inr lA"
proof -
  have ne: "B \<noteq> C" "A \<noteq> C" "A \<noteq> B" using par by auto
  let ?r1 = "r\<lparr> theset := AList.update C lC (theset r) \<rparr>"
  let ?r2 = "?r1\<lparr> theset := AList.update B lB (theset ?r1) \<rparr>"
  have c: "S3_represent_path (Suc n) e h rws C rowC r = (Inr lC, ?r1)"
    using unc(3) par(3) rr(1) by (simp add: Let_def)
  have b: "S3_represent_path (Suc (Suc n)) e h rws B rowB r = (Inr lB, ?r2)"
    using unc(2,3) par(2,5) rws(2) rr(2) c
    by (simp add: Let_def del: S3_represent_path.simps
          add: S3_represent_path.simps(2) [of "Suc n"])
  have a: "S3_represent_path (Suc (Suc (Suc n))) e h rws A rowA r
           = (Inr lA, ?r2\<lparr> theset := AList.update A lA (theset ?r2) \<rparr>)"
    using unc(1,2) par(1,4) rws(1) rr(3) b
    by (simp add: Let_def del: S3_represent_path.simps
          add: S3_represent_path.simps(2) [of "Suc (Suc n)"])
  show ?thesis using a by simp
qed

lemma enqueue_chain:
  assumes unc: "map_of ts B = None" "map_of ts C = None"
    and par: "parent h A = B" "parent h B = C" "parent h C = PNone" "truthy B" "truthy C"
  shows "enqueue_parents (Some h) ts [(A, True)] = [(A, True), (B, False), (C, False)]"
proof -
  have ne: "B \<noteq> C" "A \<noteq> C" "A \<noteq> B" using par by auto
  have c: "lookup_parent h ts C [(A, True), (B, False), (C, False)]
           = [(A, True), (B, False), (C, False)]"
    by (subst lookup_parent.simps) (simp add: par Let_def)
  have b: "lookup_parent h ts B [(A, True), (B, False)] = [(A, True), (B, False), (C, False)]"
    by (subst lookup_parent.simps) (use ne in \<open>simp add: par unc c Let_def\<close>)
  have a: "lookup_parent h ts A [(A, True)] = [(A, True), (B, False), (C, False)]"
    by (subst lookup_parent.simps) (use ne in \<open>simp add: par unc b Let_def\<close>)
  show ?thesis by (simp add: enqueue_parents_def a)
qed

lemma map_of_all_None: "(\<forall>x. map_of l x = None) \<Longrightarrow> l = []"
  by (cases l) (auto split: if_splits)


lemma represent_named_row:
  assumes "\<not> slabels r" "\<not> clabels r" "\<not> translate r" "fields_list r = [f]"
    and "map_of row f = Some (PStr n)" "n \<noteq> []"
  shows "represent_row e r row None = Inr (LStr n)"
    and "hier_truthy (hierarchy r) \<Longrightarrow> htemplate r = ''%s'' @ sep @ ''%s'' \<Longrightarrow>
         CHR ''%'' \<notin> set sep \<Longrightarrow> p \<noteq> [] \<Longrightarrow>
         represent_row e r row (Some (LStr p)) = Inr (LStr (p @ sep @ n))"
proof -
  have fv: "field_values row (fields_list r) = Inr [PStr n]"
    using assms(4,5,6) by (simp add: row_get_def)
  show "represent_row e r row None = Inr (LStr n)"
    using assms(1,2,3) by (simp add: represent_row_def fv s3_unicode_def)
  assume h: "hier_truthy (hierarchy r)" "htemplate r = ''%s'' @ sep @ ''%s''"
    "CHR ''%'' \<notin> set sep" "p \<noteq> []"
  have pf: "py_format (htemplate r) [p, n] = Inr (p @ sep @ n)"
    unfolding h(2) using py_format_pair [OF h(3)] .
  show "represent_row e r row (Some (LStr p)) = Inr (LStr (p @ sep @ n))"
    using assms(1,2,3) h(1,4)
    by (simp add: represent_row_def fv s3_unicode_def s3_unicode_label_def pf)
qed

lemma chain_lookup:
  assumes cf: "configured r t k"
    and rend: "\<not> slabels r" "\<not> clabels r" "\<not> translate r" "fields_list r = [f]"
      "f \<in> set (tfields t)"
    and hier: "hier_truthy (hierarchy r)" "htemplate r = ''%s'' @ sep @ ''%s''"
      "CHR ''%'' \<notin> set sep"
    and h: "new_S3Hierarchy e (tname t) = h" "config h"
    and par: "parent h A = B" "parent h B = C" "parent h C = PNone" "truthy B" "truthy C"
    and vals: "hashable A" "normalise (table r) A = A" "truthy A"
    and unc: "map_of (theset r) A = None" "map_of (theset r) B = None"
      "map_of (theset r) C = None"
    and db: "find_row e t k A = Some ra" "map_of ra f = Some (PStr na)" "na \<noteq> []"
      "find_row e t k B = Some rb" "map_of rb f = Some (PStr nb)" "nb \<noteq> []"
      "find_row e t k C = Some rc" "map_of rc f = Some (PStr nc)" "nc \<noteq> []"
    and fuel: "3 \<le> recursion_limit e"
  obtains items r1 where
    "S3_lookup e r [A] None = (Inr items, r1)"
    "map_of items A = Some (LStr (nc @ sep @ nb @ sep @ na))"
    "fetched r r1 [A, B, C]"
proof -
  have tk: "table r = Some t" "key r = Some k" "k \<in> set (tfields t)" "\<not> custom_lookup r"
    using cf by (simp_all add: configured_def)
  have an: "A \<noteq> PNone" using vals(3) by auto
  have cv: "check_values r [A] ([], [], []) = Inr ([(A, A)], [], [(A, True)])"
    using vals(1,2) an unc(1) by (simp add: Let_def)
  have gh: "get_hierarchy e r t = Some h"
    using hier(1) h by (simp add: get_hierarchy_def Let_def)
  have eq: "enqueue_parents (Some h) (theset r) [(A, True)] = [(A, True), (B, False), (C, False)]"
    by (rule enqueue_chain [OF unc(2,3) par])
  let ?lk = "[(A, True), (B, False), (C, False)]"
  have un: "S3_lookup e r [A] None =
      (case retrieve e r t k [(A, A)] (Some h) ([], ?lk) of
         (Inl err, r2) \<Rightarrow> (Inl err, r2)
       | (Inr acc2, r2) \<Rightarrow>
           (Inr (fill_default (default_repr r2) [(A, A)] (map fst (snd acc2)) (fst acc2)), r2))"
    unfolding S3_lookup_def cv by (simp add: tk gh eq Let_def)
  have hk: "list_all hashable (map fst ?lk)"
    using vals(1) par(4,5) parent_is_key [of h A] parent_is_key [of h B] par(1,2)
    by (simp add: is_key_hashable)
  have fs: "[f] = (if list_all (\<lambda>f. f \<in> set (tfields t)) (fields_list r) then fields_list r
                   else filter (\<lambda>f. f \<in> set (tfields t)) (fields_list r))"
    using rend(4,5) by simp
  obtain rws r2 where
    f2: "fetched r r2 (map fst ?lk)" and t2: "theset r2 = theset r"
    and di: "distinct (map fst rws)"
    and mr: "\<forall>x. map_of rws x = (if x \<in> fst ` set ?lk
                          then map_option (select_fields ([f] @ [k])) (find_row e t k x)
                          else None)"
    and rt: "retrieve e r t k [(A, A)] (Some h) ([], ?lk) =
             (case Some h of
                Some h0 \<Rightarrow> represent_paths e h0 [(A, A)] rws rws ([], ?lk) r2
              | None \<Rightarrow> represent_flat e [(A, A)] rws ([], ?lk) r2)"
    by (rule retrieve_rows [OF tk(4) hk fs, where e = e and k = k and keys = "[(A, A)]"
          and h = "Some h" and items = "[]"])
  have st: "static r2 = static r" using f2 by (simp add: fetched_def)
  have ma: "map_of rws A = Some (select_fields ([f] @ [k]) ra)"
    and mb: "map_of rws B = Some (select_fields ([f] @ [k]) rb)"
    and mc: "map_of rws C = Some (select_fields ([f] @ [k]) rc)"
    using mr db(1,4,7) by simp_all
  have sa: "map_of (select_fields ([f] @ [k]) ra) f = Some (PStr na)"
    and sb: "map_of (select_fields ([f] @ [k]) rb) f = Some (PStr nb)"
    and sc: "map_of (select_fields ([f] @ [k]) rc) f = Some (PStr nc)"
    using db(2,5,8) by (simp_all add: select_fields_map_of)
  have rC: "represent_row e r2 (select_fields ([f] @ [k]) rc) None = Inr (LStr nc)"
    unfolding represent_row_static [OF st]
    by (rule represent_named_row(1) [OF rend(1,2,3,4) sc db(9)])
  have rB: "represent_row e r2 (select_fields ([f] @ [k]) rb) (Some (LStr nc))
            = Inr (LStr (nc @ sep @ nb))"
    unfolding represent_row_static [OF st]
    by (rule represent_named_row(2) [OF rend(1,2,3,4) sb db(6) hier db(9)])
  have rA: "represent_row e r2 (select_fields ([f] @ [k]) ra) (Some (LStr (nc @ sep @ nb)))
            = Inr (LStr ((nc @ sep @ nb) @ sep @ na))"
    unfolding represent_row_static [OF st]
    by (rule represent_named_row(2) [OF rend(1,2,3,4) sa db(3) hier]) (simp add: db(9))
  obtain n where n: "recursion_limit e = Suc (Suc (Suc n))"
    using fuel by (metis add_2_eq_Suc' add_Suc le_Suc_ex numeral_3_eq_3 plus_1_eq_Suc)
  obtain r3 where
    p: "S3_represent_path (recursion_limit e) e h rws A (select_fields ([f] @ [k]) ra) r2
        = (Inr (LStr ((nc @ sep @ nb) @ sep @ na)), r3)"
    using path_chain [of r2 A B C h rws, OF _ _ _ par mb mc rC rB rA, of n] unc t2 n
    by (cases "S3_represent_path (recursion_limit e) e h rws A (select_fields ([f] @ [k]) ra) r2")
      simp
  have f3: "frame r2 r3" by (rule represent_path_frame [OF p])
  have ain: "(A, select_fields ([f] @ [k]) ra) \<in> set rws"
    by (rule map_of_SomeD [OF ma])
  have l1: "map_of ?lk A = Some True" by simp
  have ne: "B \<noteq> C" "A \<noteq> C" "A \<noteq> B" using par by auto
  have l2: "\<forall>x. x \<noteq> A \<longrightarrow> map_of ?lk x \<noteq> Some True" by simp
  from represent_paths_single [OF di ain l1 l2 p, of "[(A, A)]" "[]"]
  obtain lookup' where
    rp: "represent_paths e h [(A, A)] rws rws ([], ?lk) r2 =
           (Inr (AList.update (keys_get [(A, A)] A) (LStr ((nc @ sep @ nb) @ sep @ na)) [],
                 lookup'), r3)"
    and lk: "\<forall>x. map_of lookup' x = (if x \<in> fst ` set rws then None else map_of ?lk x)"
    by auto
  have dom: "A \<in> fst ` set rws" "B \<in> fst ` set rws" "C \<in> fst ` set rws"
    using ma mb mc by (force dest!: map_of_SomeD)+
  have "\<forall>x. map_of lookup' x = None"
    using lk dom by auto
  then have le: "lookup' = []" by (rule map_of_all_None)
  have res: "S3_lookup e r [A] None = (Inr [(A, LStr (nc @ sep @ nb @ sep @ na))], r3)"
    unfolding un rt by (simp add: rp le keys_get_def)
  show ?thesis
    by (rule that [OF res _ fetched_frame [OF _ f3]]) (use f2 in simp_all)
qed

subsection \<open>Labels served from \<^verbatim>\<open>theset\<close>\<close>

lemma fill_default_miss:
  "v \<notin> keys_get keys ` set ks \<Longrightarrow> map_of (fill_default d keys ks items) v = map_of items v"
  by (induction ks arbitrary: items) (auto simp: update_conv')

lemma singleton_alist:
  assumes "distinct (map fst l)" and "fst ` set l = {a}"
  shows "\<exists>b. l = [(a, b)]"
proof (cases l)
  case Nil
  with assms(2) show ?thesis by simp
next
  case (Cons x xs)
  have x: "fst x = a" using assms(2) Cons by auto
  have "xs = []"
  proof (cases xs)
    case Nil
    then show ?thesis .
  next
    case (Cons y ys)
    have "fst y = a" using assms(2) \<open>l = x # xs\<close> Cons by auto
    with x assms(1) \<open>l = x # xs\<close> Cons show ?thesis by simp
  qed
  with Cons x show ?thesis by (cases x) auto
qed

lemma lookup_caches:
  assumes cf: "configured r t k"
    and hr: "has_row e t k (normalise (table r) v)"
    and hp: "\<forall>h x. get_hierarchy e r t = Some h \<longrightarrow>
               normalise (table r) (parent h x) = parent h x"
    and run: "S3_lookup e r [v] None = (Inr items, r1)"
  shows "\<exists>l. map_of items v = Some l \<and> cached r1 v = Some l"
proof -
  let ?nv = "normalise (table r) v"
  let ?h = "get_hierarchy e r t"
  have hv: "list_all hashable [v]"
  proof (cases "check_values r [v] ([], [], [])")
    case (Inl err)
    with run show ?thesis by (simp add: S3_lookup_def)
  next
    case (Inr res)
    then show ?thesis by (rule check_values_hashable)
  qed
  have nc: "\<not> custom_lookup r" using cf by (simp add: configured_def)
  from cf hv obtain keys items0 lookup1 where
    i0: "\<forall>v'. map_of items0 v' = (if v' \<in> set [v] then cached r v' else None)"
    and k: "\<forall>kk. map_of keys kk =
        (case filter (\<lambda>v0. normalise (table r) v0 = kk) [v] of
           [] \<Rightarrow> None | x # xs \<Rightarrow> Some (last (x # xs)))"
    and t: "\<forall>x. (map_of lookup1 x = Some True)
              = (\<exists>v' \<in> set [v]. cached r v' = None \<and> normalise (table r) v' = x)"
    and fl: "?h = None \<longrightarrow> (\<forall>x \<in> fst ` set lookup1. map_of lookup1 x = Some True)"
    and hk: "list_all hashable (map fst lookup1)"
    and pr: "\<forall>x \<in> fst ` set lookup1. map_of lookup1 x = Some True \<or>
        (\<exists>h y. ?h = Some h \<and> x = parent h y)"
    and eq: "S3_lookup e r [v] None =
       (if \<exists>v' \<in> set [v]. cached r v' = None
        then (case retrieve e r t k keys ?h (items0, lookup1) of
                (Inl err, r2) \<Rightarrow> (Inl err, r2)
              | (Inr acc2, r2) \<Rightarrow>
                  (Inr (fill_default (default_repr r2) keys (map fst (snd acc2)) (fst acc2)), r2))
        else (Inr items0, r))"
    by (rule pending_stage [where e = e])
  show ?thesis
  proof (cases "cached r v")
    case (Some l)
    then have "S3_lookup e r [v] None = (Inr items0, r)" using eq by simp
    with run have "items = items0" "r1 = r" by simp_all
    then show ?thesis using i0 Some by simp
  next
    case None
    have nn: "?nv \<noteq> PNone" "map_of (theset r) ?nv = None"
      using None by (simp_all add: cached_None)
    have lt: "map_of lookup1 ?nv = Some True" using t None by simp
    have only: "\<forall>x. x \<noteq> ?nv \<longrightarrow> map_of lookup1 x \<noteq> Some True" using t by auto
    have kg: "keys_get keys ?nv = v" using keys_get_requested [OF k, of v] by simp
    have kother: "\<And>x. x \<noteq> ?nv \<Longrightarrow> keys_get keys x = x"
      using k by (simp add: keys_get_def)
    obtain rws r2 where
      f2: "fetched r r2 (map fst lookup1)" and t2: "theset r2 = theset r"
      and di: "distinct (map fst rws)"
      and dom: "fst ` set rws = {kv \<in> fst ` set lookup1. has_row e t k kv}"
      and rt: "retrieve e r t k keys ?h (items0, lookup1) =
             (case ?h of
                Some h0 \<Rightarrow> represent_paths e h0 keys rws rws (items0, lookup1) r2
              | None \<Rightarrow> represent_flat e keys rws (items0, lookup1) r2)"
      by (rule retrieve_default [OF nc hk, where e = e and t = t and k = k and keys = keys
            and h = ?h and items = items0])
    have st2: "static r2 = static r" using f2 by (simp add: fetched_def)
    have inl: "?nv \<in> fst ` set lookup1"
      using map_of_SomeD [OF lt] by (force simp: image_iff)
    have inr: "?nv \<in> fst ` set rws" using dom inl hr by simp
    then obtain row where row: "(?nv, row) \<in> set rws" by auto
    have eq2: "S3_lookup e r [v] None =
        (case retrieve e r t k keys ?h (items0, lookup1) of
                (Inl err, r2) \<Rightarrow> (Inl err, r2)
              | (Inr acc2, r2) \<Rightarrow>
                  (Inr (fill_default (default_repr r2) keys (map fst (snd acc2)) (fst acc2)), r2))"
      using eq None by simp
    have main: "\<exists>l lookup2.
        retrieve e r t k keys ?h (items0, lookup1) = (Inr (AList.update v l items0, lookup2), r1) \<and>
        map_of (theset r1) ?nv = Some l \<and> table r1 = table r \<and>
        (\<forall>x \<in> fst ` set lookup2. x \<noteq> ?nv \<and> x \<in> fst ` set lookup1)"
    proof (cases ?h)
      case (Some h)
      obtain res r3 where
        p: "S3_represent_path (recursion_limit e) e h rws ?nv row r2 = (res, r3)"
        by (cases "S3_represent_path (recursion_limit e) e h rws ?nv row r2") auto
      note sg = represent_paths_single [OF di row lt only p, of keys items0]
      show ?thesis
      proof (cases res)
        case (Inl err)
        with sg have "represent_paths e h keys rws rws (items0, lookup1) r2 = (Inl err, r3)"
          by simp
        then have "S3_lookup e r [v] None = (Inl err, r3)" using eq2 rt Some by simp
        with run show ?thesis by simp
      next
        case (Inr l)
        with sg obtain lookup' where
          rp: "represent_paths e h keys rws rws (items0, lookup1) r2 =
                 (Inr (AList.update (keys_get keys ?nv) l items0, lookup'), r3)"
          and lk: "\<forall>x. map_of lookup' x = (if x \<in> fst ` set rws then None else map_of lookup1 x)"
          by auto
        have r13: "r1 = r3" using eq2 rt Some rp run by simp
        have th: "map_of (theset r3) ?nv = Some l"
          using represent_path_result [of "recursion_limit e" e h rws ?nv row r2 l r3] p Inr
          by simp
        have "frame r2 r3" by (rule represent_path_frame [OF p])
        then have "static r3 = static r" using st2 by (simp add: frame_def)
        then have tb: "table r3 = table r" by (rule static_fields(1))
        have lks: "\<forall>x \<in> fst ` set lookup'. x \<noteq> ?nv \<and> x \<in> fst ` set lookup1"
        proof
          fix x assume "x \<in> fst ` set lookup'"
          then have "map_of lookup' x \<noteq> None" by (simp add: map_of_eq_None_iff)
          then have a: "x \<notin> fst ` set rws" "map_of lookup1 x \<noteq> None"
            using lk by (auto split: if_splits)
          from a(1) inr have "x \<noteq> ?nv" by auto
          moreover from a(2) have "x \<in> fst ` set lookup1" by (simp add: map_of_eq_None_iff)
          ultimately show "x \<noteq> ?nv \<and> x \<in> fst ` set lookup1" by simp
        qed
        have "retrieve e r t k keys ?h (items0, lookup1)
              = (Inr (AList.update v l items0, lookup'), r1)"
          using rt Some rp r13 kg by simp
        with th tb lks r13 show ?thesis by blast
      qed
    next
      case None
      have all: "\<forall>x \<in> fst ` set lookup1. x = ?nv"
        using fl None only by blast
      have "fst ` set rws = {?nv}" using dom all inr by auto
      from singleton_alist [OF di this] obtain row' where rw: "rws = [(?nv, row')]" by blast
      have rf: "retrieve e r t k keys ?h (items0, lookup1)
                = represent_flat e keys [(?nv, row')] (items0, lookup1) r2"
        using rt None rw by simp
      show ?thesis
      proof (cases "represent_row e r2 row' None")
        case (Inl err)
        then have "S3_lookup e r [v] None = (Inl err, r2)" using eq2 rf by simp
        with run show ?thesis by simp
      next
        case (Inr l)
        let ?r3 = "r2\<lparr> theset := AList.update ?nv l (theset r2) \<rparr>"
        have rq: "retrieve e r t k keys ?h (items0, lookup1)
                  = (Inr (AList.update v l items0, AList.delete ?nv lookup1), ?r3)"
          using rf Inr kg by simp
        have r13: "r1 = ?r3" using eq2 rq run by simp
        have th: "map_of (theset ?r3) ?nv = Some l" by (simp add: update_conv')
        have "static ?r3 = static r" using st2 by (simp add: static_def)
        then have tb: "table ?r3 = table r" by (rule static_fields(1))
        have lks: "\<forall>x \<in> fst ` set (AList.delete ?nv lookup1). x \<noteq> ?nv \<and> x \<in> fst ` set lookup1"
        proof
          fix x assume "x \<in> fst ` set (AList.delete ?nv lookup1)"
          then have "map_of (AList.delete ?nv lookup1) x \<noteq> None"
            by (simp add: map_of_eq_None_iff)
          then have "x \<noteq> ?nv \<and> map_of lookup1 x \<noteq> None"
            by (auto simp: delete_conv' split: if_splits)
          then show "x \<noteq> ?nv \<and> x \<in> fst ` set lookup1" by (simp add: map_of_eq_None_iff)
        qed
        from rq th tb lks r13 show ?thesis by blast
      qed
    qed
    then obtain l lookup2 where
      rtv: "retrieve e r t k keys ?h (items0, lookup1) = (Inr (AList.update v l items0, lookup2), r1)"
      and th: "map_of (theset r1) ?nv = Some l" and tb: "table r1 = table r"
      and lks: "\<forall>x \<in> fst ` set lookup2. x \<noteq> ?nv \<and> x \<in> fst ` set lookup1"
      by blast
    have it: "items = fill_default (default_repr r1) keys (map fst lookup2) (AList.update v l items0)"
      using eq2 run rtv by simp
    have miss: "v \<notin> keys_get keys ` set (map fst lookup2)"
    proof
      assume "v \<in> keys_get keys ` set (map fst lookup2)"
      then obtain x where x: "x \<in> fst ` set lookup2" "v = keys_get keys x" by auto
      then have xn: "x \<noteq> ?nv" "x \<in> fst ` set lookup1" using lks by auto
      then have vx: "v = x" using kother x by simp
      from pr xn(2) have "map_of lookup1 x = Some True \<or>
          (\<exists>h y. ?h = Some h \<and> x = parent h y)" by auto
      then show False
      proof
        assume "map_of lookup1 x = Some True"
        with only xn(1) show False by simp
      next
        assume "\<exists>h y. ?h = Some h \<and> x = parent h y"
        then obtain h y where "?h = Some h" "x = parent h y" by auto
        with hp have "normalise (table r) x = x" by simp
        with vx xn(1) show False by simp
      qed
    qed
    have "map_of items v = Some l"
      unfolding it fill_default_miss [OF miss] by (simp add: update_conv')
    moreover have "cached r1 v = Some l" using th tb nn by (simp add: cached_def)
    ultimately show ?thesis by blast
  qed
qed

lemma lookup_cached:
  assumes cf: "configured r t k" and hv: "hashable v" and c: "cached r v = Some l"
  shows "\<exists>items. S3_lookup e r [v] None = (Inr items, r) \<and> map_of items v = Some l"
proof -
  have hv': "list_all hashable [v]" using hv by simp
  from cf hv' obtain keys items0 lookup1 where
    i0: "\<forall>v'. map_of items0 v' = (if v' \<in> set [v] then cached r v' else None)"
    and k: "\<forall>kk. map_of keys kk =
        (case filter (\<lambda>v0. normalise (table r) v0 = kk) [v] of
           [] \<Rightarrow> None | x # xs \<Rightarrow> Some (last (x # xs)))"
    and t: "\<forall>x. (map_of lookup1 x = Some True)
              = (\<exists>v' \<in> set [v]. cached r v' = None \<and> normalise (table r) v' = x)"
    and fl: "get_hierarchy e r t = None \<longrightarrow> (\<forall>x \<in> fst ` set lookup1. map_of lookup1 x = Some True)"
    and hk: "list_all hashable (map fst lookup1)"
    and pr: "\<forall>x \<in> fst ` set lookup1. map_of lookup1 x = Some True \<or>
        (\<exists>h y. get_hierarchy e r t = Some h \<and> x = parent h y)"
    and eq: "S3_lookup e r [v] None =
       (if \<exists>v' \<in> set [v]. cached r v' = None
        then (case retrieve e r t k keys (get_hierarchy e r t) (items0, lookup1) of
                (Inl err, r2) \<Rightarrow> (Inl err, r2)
              | (Inr acc2, r2) \<Rightarrow>
                  (Inr (fill_default (default_repr r2) keys (map fst (snd acc2)) (fst acc2)), r2))
        else (Inr items0, r))"
    by (rule pending_stage [where e = e])
  have "S3_lookup e r [v] None = (Inr items0, r)" using eq c by simp
  moreover have "map_of items0 v = Some l" using i0 c by simp
  ultimately show ?thesis by blast
qed


lemma as_list_hashable: "hashable v \<Longrightarrow> as_list v = [v]"
  by (cases v) (simp_all add: as_list_def)

lemma lookup_static:
  assumes "S3_lookup e r vs rows_p = (res, r')"
  shows "static r' = static r"
  using lookup_effect [OF assms] by (auto simp: frame_def fetched_def)

subsection \<open>Strings as values\<close>

lemma check_values_error:
  "check_values r vs acc = Inl err \<Longrightarrow> err = TypeError"
proof (induction vs arbitrary: acc)
  case Nil
  then show ?case by simp
next
  case (Cons v0 vs)
  obtain keys items lookup where acc: "acc = (keys, items, lookup)" by (cases acc)
  from Cons.prems show ?case unfolding acc
    by (auto simp: Let_def split: if_splits option.splits dest: Cons.IH)
qed

lemma label_strings_error:
  "label_strings e d items vs = Inl err \<Longrightarrow> err = TypeError"
  by (induction vs arbitrary: err)
    (auto split: option.splits sum.splits label.splits)

lemma lookup_without_table:
  assumes "table r = None"
  shows "snd (S3_lookup e r vs rows_p) = r" and "fst (S3_lookup e r vs rows_p) \<noteq> Inl ValueError"
proof -
  show "snd (S3_lookup e r vs rows_p) = r"
    using assms
    by (cases "check_values r vs ([], [], [])") (auto simp: S3_lookup_def split: prod.splits)
  show "fst (S3_lookup e r vs rows_p) \<noteq> Inl ValueError"
  proof (cases "check_values r vs ([], [], [])")
    case (Inl err)
    then have "err = TypeError" by (rule check_values_error)
    with Inl show ?thesis by (simp add: S3_lookup_def)
  next
    case (Inr res)
    with assms show ?thesis by (auto simp: S3_lookup_def split: prod.splits)
  qed
qed

lemma chain_strings:
  "chain_from_iterable (map PStr ss) = Inr (concat (map (map (\<lambda>c. PStr [c])) ss))"
  by (induction ss) (simp_all add: py_iter_def)

lemma flatten_strings:
  "flatten (PList (map PStr ss)) = Inr (remdups (concat (map (map (\<lambda>c. PStr [c])) ss)))"
proof -
  have n: "PNone \<notin> set (map PStr ss)" by auto
  have h: "list_all hashable (concat (map (map (\<lambda>c. PStr [c])) ss))"
    by (auto simp: list_all_iff)
  show ?thesis
    unfolding flatten_def using n h by (simp add: chain_strings Let_def del: set_map)
qed


lemma multiple_strings_without_table:
  assumes "S3_setup e r0 = (Inr (), r)" and "list_type r" and "table r = None"
  shows "fst (multiple e r0 (PList (map PStr ss)) rows_p True sl) \<noteq> Inl ValueError"
proof -
  let ?vs = "remdups (concat (map (map (\<lambda>c. PStr [c])) ss))"
  obtain res r1 where lk: "S3_lookup e r ?vs rows_p = (res, r1)"
    by (cases "S3_lookup e r ?vs rows_p") auto
  have nv: "res \<noteq> Inl ValueError"
    using lookup_without_table(2) [OF assms(3), of e ?vs rows_p] lk by simp
  have ls: "\<And>d items. label_strings e d items ?vs \<noteq> Inl ValueError"
    using label_strings_error by fastforce
  show ?thesis
    using assms nv lk ls
    by (cases res)
      (auto simp: multiple_def flatten_strings Let_def split: sum.splits)
qed

lemma bulk_strings_without_table:
  assumes "S3_setup e r0 = (Inr (), r)" and "list_type r" and "table r = None"
  shows "fst (bulk e r0 (PList (map PStr ss)) rows_p True sl) \<noteq> Inl ValueError"
proof -
  let ?vs = "remdups (concat (map (map (\<lambda>c. PStr [c])) ss))"
  let ?v = "PList (map PStr ss)"
  let ?r = "r\<lparr> trace := trace r0 @ [Bulk ?v] \<rparr>"
  have s: "S3_setup e (r0\<lparr> trace := trace r0 @ [Bulk ?v] \<rparr>) = (Inr (), ?r)"
    by (simp add: setup_trace_update assms(1))
  have tb: "table ?r = None" "list_type ?r" using assms(2,3) by simp_all
  obtain res r1 where lk: "S3_lookup e ?r ?vs rows_p = (res, r1)"
    by (cases "S3_lookup e ?r ?vs rows_p") auto
  have nv: "res \<noteq> Inl ValueError"
    using lookup_without_table(2) [OF tb(1), of e ?vs rows_p] lk by simp
  show ?thesis
    unfolding bulk_def Let_def s
    using tb nv lk
    by (cases res) (auto simp: flatten_strings Let_def)
qed

lemma py_int_nonempty: "py_int s = Some z \<Longrightarrow> s \<noteq> []"
  by (auto simp: py_int_def strip_def)

lemma fetched_theset [simp]: "fetched r (r1\<lparr> theset := ts \<rparr>) ks = fetched r r1 ks"
  by (simp add: fetched_def static_def)

lemma string_key_lookup:
  assumes cf: "configured r t k"
    and nh: "get_hierarchy e r t = None"
    and rend: "\<not> slabels r" "\<not> clabels r" "\<not> translate r" "fields_list r = [f]"
      "f \<in> set (tfields t)"
    and pi: "py_int s = Some z"
    and unc: "map_of (theset r) (PInt z) = None"
    and db: "find_row e t k (PInt z) = Some row0" "map_of row0 f = Some (PStr n)" "n \<noteq> []"
  obtains r1 where
    "S3_lookup e r [PStr s] None = (Inr [(PStr s, LStr n)], r1)"
    "fetched r r1 [PInt z]"
proof -
  have tk: "table r = Some t" "key r = Some k" "k \<in> set (tfields t)" "\<not> custom_lookup r"
    using cf by (simp_all add: configured_def)
  have nm: "normalise (table r) (PStr s) = PInt z"
    using tk(1) pi by (simp add: normalise_def)
  have cv: "check_values r [PStr s] ([], [], []) = Inr ([(PInt z, PStr s)], [], [(PInt z, True)])"
    using nm unc by (simp add: Let_def)
  let ?lk = "[(PInt z, True)]"
  let ?keys = "[(PInt z, PStr s)]"
  have un: "S3_lookup e r [PStr s] None =
      (case retrieve e r t k ?keys None ([], ?lk) of
         (Inl err, r2) \<Rightarrow> (Inl err, r2)
       | (Inr acc2, r2) \<Rightarrow>
           (Inr (fill_default (default_repr r2) ?keys (map fst (snd acc2)) (fst acc2)), r2))"
    unfolding S3_lookup_def cv by (simp add: tk nh enqueue_parents_def Let_def)
  have hk: "list_all hashable (map fst ?lk)" by simp
  have fs: "[f] = (if list_all (\<lambda>f. f \<in> set (tfields t)) (fields_list r) then fields_list r
                   else filter (\<lambda>f. f \<in> set (tfields t)) (fields_list r))"
    using rend(4,5) by simp
  obtain rws r2 where
    f2: "fetched r r2 (map fst ?lk)" and t2: "theset r2 = theset r"
    and di: "distinct (map fst rws)"
    and mr: "\<forall>x. map_of rws x = (if x \<in> fst ` set ?lk
                          then map_option (select_fields ([f] @ [k])) (find_row e t k x)
                          else None)"
    and rt: "retrieve e r t k ?keys None ([], ?lk) =
             (case None of
                Some h0 \<Rightarrow> represent_paths e h0 ?keys rws rws ([], ?lk) r2
              | None \<Rightarrow> represent_flat e ?keys rws ([], ?lk) r2)"
    by (rule retrieve_rows [OF tk(4) hk fs, where e = e and k = k and keys = ?keys
          and h = None and items = "[]"])
  let ?row = "select_fields ([f] @ [k]) row0"
  have st: "static r2 = static r" using f2 by (simp add: fetched_def)
  have mz: "map_of rws (PInt z) = Some ?row" using mr db(1) by simp
  have dom: "fst ` set rws = {PInt z}"
  proof -
    have "\<And>x. (x \<in> fst ` set rws) = (x = PInt z)"
    proof -
      fix x
      have "(x \<in> fst ` set rws) = (map_of rws x \<noteq> None)" by (simp add: map_of_eq_None_iff)
      also have "\<dots> = (x = PInt z)" using mr db(1) by simp
      finally show "(x \<in> fst ` set rws) = (x = PInt z)" .
    qed
    then show ?thesis by blast
  qed
  from singleton_alist [OF di dom] obtain b where "rws = [(PInt z, b)]" by blast
  with mz have rw: "rws = [(PInt z, ?row)]" by simp
  have sf: "map_of ?row f = Some (PStr n)" using db(2) by (simp add: select_fields_map_of)
  have rr: "represent_row e r2 ?row None = Inr (LStr n)"
    unfolding represent_row_static [OF st]
    by (rule represent_named_row(1) [OF rend(1,2,3,4) sf db(3)])
  let ?r3 = "r2\<lparr> theset := AList.update (PInt z) (LStr n) (theset r2) \<rparr>"
  have rf: "retrieve e r t k ?keys None ([], ?lk) = (Inr ([(PStr s, LStr n)], []), ?r3)"
    unfolding rt rw using rr by (simp add: keys_get_def)
  have res: "S3_lookup e r [PStr s] None = (Inr [(PStr s, LStr n)], ?r3)"
    unfolding un rf by simp
  have f3: "fetched r ?r3 [PInt z]" using f2 by simp
  show ?thesis by (rule that [OF res f3])
qed

section \<open>The claims\<close>

text \<open>
  C1. One call of \<^verbatim>\<open>_lookup\<close>, on any instance, any list of values and any given rows,
  calls \<^verbatim>\<open>lookup_rows\<close> at most once, however many keys are not cached: the number of
  calls in the trace grows by at most one, and so does the counter \<^verbatim>\<open>queries\<close>; neither
  decreases.
\<close>

theorem lookup_fetches_at_most_once:
  "fetch_count (trace (snd (S3_lookup e r vs rows_p))) \<le> fetch_count (trace r) + 1 \<and>
   fetch_count (trace r) \<le> fetch_count (trace (snd (S3_lookup e r vs rows_p))) \<and>
   queries (snd (S3_lookup e r vs rows_p)) \<le> queries r + 1 \<and>
   queries r \<le> queries (snd (S3_lookup e r vs rows_p))"
proof -
  obtain res r' where l: "S3_lookup e r vs rows_p = (res, r')"
    by (cases "S3_lookup e r vs rows_p") auto
  from lookup_effect [OF l] show ?thesis
    unfolding l by (auto simp: frame_def fetched_def fetch_count_def)
qed

theorem lookup_fetches_at_most_once_witness:
  "fetch_count (trace (snd (S3_lookup org_env org_ready [PInt 1, PInt 2, PInt 999] None))) = 1 \<and>
   fetch_count (trace org_ready) = 0 \<and>
   queries (snd (S3_lookup org_env org_ready [PInt 1, PInt 2, PInt 999] None)) = 1 \<and>
   queries org_ready = 0"
proof -
  have a: "trace (snd (S3_lookup org_env org_ready [PInt 1, PInt 2, PInt 999] None))
           = [LookupRows [PInt 1, PInt 2, PInt 999]]"
    by code_simp
  have b: "queries (snd (S3_lookup org_env org_ready [PInt 1, PInt 2, PInt 999] None)) = 1"
    by code_simp
  have c: "trace org_ready = []" by code_simp
  have d: "queries org_ready = 0" by code_simp
  show ?thesis
    using lookup_fetches_at_most_once [of org_env org_ready "[PInt 1, PInt 2, PInt 999]" None]
      a b c d
    by (simp add: fetch_count_def)
qed

text \<open>
  C8, as the code has it. For a list-type representer whose \<^verbatim>\<open>_setup\<close> succeeds, with no
  rows given (or no table), \<^verbatim>\<open>multiple\<close> and \<^verbatim>\<open>bulk\<close> raise ValueError on every value that
  cannot be flattened: \<^verbatim>\<open>None\<close>, an integer, a string, or a list with an integer element
  or an element that holds a list. Nothing is looked up: the instance is left as
  \<^verbatim>\<open>_setup\<close> left it (\<^verbatim>\<open>bulk\<close> only being recorded in the trace). A flat list of strings
  is not such a value, since a string is iterable: on a representer without a lookup
  table neither \<^verbatim>\<open>multiple\<close> nor \<^verbatim>\<open>bulk\<close> raises ValueError for it.
\<close>

theorem unflattenable_gives_ValueError:
  assumes "S3_setup e r0 = (Inr (), r)"
    and "list_type r"
    and "\<not> (rows_given rows_p \<and> table r \<noteq> None)"
  shows "(unflattenable v \<longrightarrow>
            multiple e r0 v rows_p True sl = (Inl ValueError, r) \<and>
            bulk e r0 v rows_p True sl = (Inl ValueError, r\<lparr> trace := trace r @ [Bulk v] \<rparr>)) \<and>
         (table r = None \<longrightarrow>
            fst (multiple e r0 (PList (map PStr ss)) rows_p True sl) \<noteq> Inl ValueError \<and>
            fst (bulk e r0 (PList (map PStr ss)) rows_p True sl) \<noteq> Inl ValueError)"
proof (intro conjI impI)
  assume u: "unflattenable v"
  have f: "flatten v = Inl ValueError" using u by (simp add: flatten_fails_iff)
  have t: "trace r = trace r0" using setup_keeps(1) [of e r0] assms(1) by simp
  show "multiple e r0 v rows_p True sl = (Inl ValueError, r)"
    using assms(1-3) f by (auto simp: multiple_def Let_def)
  have s: "S3_setup e (r0\<lparr> trace := trace r0 @ [Bulk v] \<rparr>)
           = (Inr (), r\<lparr> trace := trace r0 @ [Bulk v] \<rparr>)"
    by (simp add: setup_trace_update assms(1))
  show "bulk e r0 v rows_p True sl = (Inl ValueError, r\<lparr> trace := trace r @ [Bulk v] \<rparr>)"
    using assms(2-3) f s t by (auto simp: bulk_def Let_def)
next
  assume "table r = None"
  then show "fst (multiple e r0 (PList (map PStr ss)) rows_p True sl) \<noteq> Inl ValueError"
    by (rule multiple_strings_without_table [OF assms(1,2)])
next
  assume "table r = None"
  then show "fst (bulk e r0 (PList (map PStr ss)) rows_p True sl) \<noteq> Inl ValueError"
    by (rule bulk_strings_without_table [OF assms(1,2)])
qed

theorem unflattenable_gives_ValueError_witness:
  "fst (multiple org_env org_list_rep (PList [PInt 1, PInt 2]) None True True) = Inl ValueError \<and>
   fst (bulk org_env org_list_rep (PList [PInt 1, PInt 2]) None True True) = Inl ValueError \<and>
   trace (snd (multiple org_env org_list_rep (PList [PInt 1, PInt 2]) None True True)) = [] \<and>
   fst (multiple org_env opt_list_rep (PList (map PStr [''ab''])) None True True)
     \<noteq> Inl ValueError \<and>
   fst (bulk org_env opt_list_rep (PList (map PStr [''ab''])) None True True) \<noteq> Inl ValueError"
proof -
  let ?r = "snd (S3_setup org_env org_list_rep)"
  have f: "fst (S3_setup org_env org_list_rep) = Inr ()" by code_simp
  have s: "S3_setup org_env org_list_rep = (Inr (), ?r)"
    using f by (simp add: prod_eq_iff)
  have l: "list_type ?r" by code_simp
  have g: "\<not> (rows_given None \<and> table ?r \<noteq> None)" by (simp add: rows_given_def)
  have u: "unflattenable (PList [PInt 1, PInt 2])" by code_simp
  have t: "trace ?r = []" by code_simp
  let ?q = "snd (S3_setup org_env opt_list_rep)"
  have f': "fst (S3_setup org_env opt_list_rep) = Inr ()" by code_simp
  have s': "S3_setup org_env opt_list_rep = (Inr (), ?q)"
    using f' by (simp add: prod_eq_iff)
  have l': "list_type ?q" by code_simp
  have n': "table ?q = None" by code_simp
  have g': "\<not> (rows_given None \<and> table ?q \<noteq> None)" by (simp add: rows_given_def)
  note th1 = unflattenable_gives_ValueError [OF s l g, where v = "PList [PInt 1, PInt 2]"
      and sl = True, THEN conjunct1, THEN mp, OF u]
  note th2 = unflattenable_gives_ValueError [OF s' l' g', where ss = "[''ab'']"
      and sl = True, THEN conjunct2, THEN mp, OF n']
  show ?thesis using th1 th2 t by simp
qed

text \<open>
  The claim as written fails for a flat list of strings on the representer over options:
  \<^verbatim>\<open>["a"]\<close> and \<^verbatim>\<open>["aa"]\<close> are flattened into the character \<^verbatim>\<open>a\<close> and labelled.
\<close>

theorem flat_list_of_strings_is_labelled:
  "fst (multiple org_env opt_list_rep (PList [PStr ''a'']) None True True) = Inr (LStr ''Alpha'') \<and>
   fst (multiple org_env opt_list_rep (PList [PStr ''aa'']) None True True)
     = Inr (LStr ''Alpha'') \<and>
   fst (bulk org_env opt_list_rep (PList [PStr ''a'']) None True True)
     = Inr [(PStr ''a'', LStr ''Alpha''), (PNone, LStr ''-'')]"
  by code_simp

text \<open>
  C10, as the code has it. For a representer that is not a list-type and whose \<^verbatim>\<open>_setup\<close>
  succeeds, \<^verbatim>\<open>__call__\<close> returns the none-label whenever the value it tests is false: the
  argument, or the key of the given row when a non-empty row is given and a table is
  configured. \<^verbatim>\<open>None\<close>, \<open>0\<close>, the empty string and the empty list are all false. The
  instance is left as \<^verbatim>\<open>_setup\<close> left it, so \<^verbatim>\<open>theset\<close> is not consulted and nothing is
  fetched. A row with key \<open>0\<close> is still reached through a string that \<^verbatim>\<open>int\<close> turns into
  \<open>0\<close>, such as \<^verbatim>\<open>"0"\<close>: the string is true and \<^verbatim>\<open>_lookup\<close> converts it, so that on a
  table without hierarchy, with labels that join the single field \<open>f\<close>, \<^verbatim>\<open>__call__\<close> returns
  the name of that row after one fetch for the key \<open>0\<close>.
\<close>

theorem call_falsy_gives_none:
  assumes "S3_setup e r0 = (Inr (), r)"
    and "\<not> list_type r"
  shows "((if row_truthy row \<and> table r \<noteq> None
           then row_key (key r) (case row of Some rw \<Rightarrow> rw | None \<Rightarrow> [])
           else Inr v) = Inr w \<and> \<not> truthy w \<longrightarrow>
            S3_call e r0 v row sl = (Inr (none r), r) \<and> trace r = trace r0) \<and>
         (configured r t k \<and> get_hierarchy e r t = None \<and>
          \<not> slabels r \<and> \<not> clabels r \<and> \<not> translate r \<and>
          fields_list r = [f] \<and> f \<in> set (tfields t) \<and>
          py_int s = Some 0 \<and> map_of (theset r) (PInt 0) = None \<and>
          find_row e t k (PInt 0) = Some row0 \<and> map_of row0 f = Some (PStr n) \<and> n \<noteq> [] \<longrightarrow>
            fst (S3_call e r0 (PStr s) None sl)
              = Inr (if sl \<and> show_link r then link e r (PStr s) (LStr n) None else LStr n) \<and>
            trace (snd (S3_call e r0 (PStr s) None sl)) = trace r0 @ [LookupRows [PInt 0]])"
proof (intro conjI impI)
  assume a: "(if row_truthy row \<and> table r \<noteq> None
           then row_key (key r) (case row of Some rw \<Rightarrow> rw | None \<Rightarrow> [])
           else Inr v) = Inr w \<and> \<not> truthy w"
  show "S3_call e r0 v row sl = (Inr (none r), r)"
    using assms a by (simp add: S3_call_def Let_def)
  show "trace r = trace r0" using assms(1) setup_keeps(1) [of e r0] by simp
next
  assume b: "configured r t k \<and> get_hierarchy e r t = None \<and>
          \<not> slabels r \<and> \<not> clabels r \<and> \<not> translate r \<and>
          fields_list r = [f] \<and> f \<in> set (tfields t) \<and>
          py_int s = Some 0 \<and> map_of (theset r) (PInt 0) = None \<and>
          find_row e t k (PInt 0) = Some row0 \<and> map_of row0 f = Some (PStr n) \<and> n \<noteq> []"
  then have cf: "configured r t k" and nh: "get_hierarchy e r t = None"
    and r1: "\<not> slabels r" and r2: "\<not> clabels r" and r3: "\<not> translate r"
    and r4: "fields_list r = [f]" and r5: "f \<in> set (tfields t)"
    and pi: "py_int s = Some 0" and unc: "map_of (theset r) (PInt 0) = None"
    and d1: "find_row e t k (PInt 0) = Some row0" and d2: "map_of row0 f = Some (PStr n)"
    and d3: "n \<noteq> []"
    by simp_all
  obtain rr where
    lk: "S3_lookup e r [PStr s] None = (Inr [(PStr s, LStr n)], rr)"
    and ft: "fetched r rr [PInt 0]"
    by (rule string_key_lookup [OF cf nh r1 r2 r3 r4 r5 pi unc d1 d2 d3])
  have st: "static rr = static r" using ft by (simp add: fetched_def)
  have nc: "\<not> custom_lookup r" using cf by (simp add: configured_def)
  have lt: "linkto rr = linkto r" by (rule static_fields(9) [OF st])
  have li: "\<And>l x. link e rr (PStr s) l x = link e r (PStr s) l None" by (simp add: link_def lt)
  have ne: "s \<noteq> []" by (rule py_int_nonempty [OF pi])
  have t: "trace r = trace r0" using assms(1) setup_keeps(1) [of e r0] by simp
  have c: "S3_call e r0 (PStr s) None sl
           = (Inr (if sl \<and> show_link r then link e r (PStr s) (LStr n) None else LStr n), rr)"
    using assms ne by (simp add: S3_call_def row_truthy_def lk li Let_def)
  show "fst (S3_call e r0 (PStr s) None sl)
              = Inr (if sl \<and> show_link r then link e r (PStr s) (LStr n) None else LStr n)"
    unfolding c by simp
  show "trace (snd (S3_call e r0 (PStr s) None sl)) = trace r0 @ [LookupRows [PInt 0]]"
    unfolding c using ft t by (simp add: fetched_def)
qed

theorem call_falsy_gives_none_witness:
  "fst (S3_call org_env org_rep (PInt 0) None True) = Inr (LStr ''-'') \<and>
   fst (S3_call org_env org_rep (PStr []) None True) = Inr (LStr ''-'') \<and>
   fst (S3_call org_env org_rep (PList []) None True) = Inr (LStr ''-'') \<and>
   fst (S3_call org_env org_rep (PInt 5) (Some [(''id'', PInt 0), (''name'', PStr ''Z'')]) True)
     = Inr (LStr ''-'') \<and>
   trace (snd (S3_call org_env org_rep (PInt 0) None True)) = [] \<and>
   fst (S3_call zero_env org_rep (PStr ''0'') None True) = Inr (LStr ''Zero'') \<and>
   trace (snd (S3_call zero_env org_rep (PStr ''0'') None True)) = [LookupRows [PInt 0]]"
proof -
  have f: "fst (S3_setup org_env org_rep) = Inr ()" by code_simp
  have s: "S3_setup org_env org_rep = (Inr (), org_ready)"
    using f by (simp add: org_ready_def prod_eq_iff)
  have l: "\<not> list_type org_ready" by code_simp
  have n: "none org_ready = LStr ''-''" by code_simp
  have t: "trace org_ready = []" by code_simp
  have tb: "table org_ready \<noteq> None" by code_simp
  have k: "row_key (key org_ready) [(''id'', PInt 0), (''name'', PStr ''Z'')] = Inr (PInt 0)"
    by code_simp
  have c1: "S3_call org_env org_rep (PInt 0) None True = (Inr (none org_ready), org_ready)
            \<and> trace org_ready = trace org_rep"
    by (rule call_falsy_gives_none [OF s l, where row = None and v = "PInt 0" and w = "PInt 0",
          THEN conjunct1, THEN mp])
      (simp add: row_truthy_def)
  have c2: "S3_call org_env org_rep (PStr []) None True = (Inr (none org_ready), org_ready)
            \<and> trace org_ready = trace org_rep"
    by (rule call_falsy_gives_none [OF s l, where row = None and v = "PStr []" and w = "PStr []",
          THEN conjunct1, THEN mp])
      (simp add: row_truthy_def)
  have c3: "S3_call org_env org_rep (PList []) None True = (Inr (none org_ready), org_ready)
            \<and> trace org_ready = trace org_rep"
    by (rule call_falsy_gives_none [OF s l, where row = None and v = "PList []"
          and w = "PList []", THEN conjunct1, THEN mp])
      (simp add: row_truthy_def)
  have c4: "S3_call org_env org_rep (PInt 5) (Some [(''id'', PInt 0), (''name'', PStr ''Z'')]) True
              = (Inr (none org_ready), org_ready)
            \<and> trace org_ready = trace org_rep"
    by (rule call_falsy_gives_none [OF s l,
          where row = "Some [(''id'', PInt 0), (''name'', PStr ''Z'')]"
          and v = "PInt 5" and w = "PInt 0", THEN conjunct1, THEN mp])
      (use tb k in \<open>simp add: row_truthy_def\<close>)
  let ?r = "snd (S3_setup zero_env org_rep)"
  have f': "fst (S3_setup zero_env org_rep) = Inr ()" by code_simp
  have s': "S3_setup zero_env org_rep = (Inr (), ?r)"
    using f' by (simp add: prod_eq_iff)
  have l': "\<not> list_type ?r" by code_simp
  have z: "configured ?r org_table ''id'' \<and> get_hierarchy zero_env ?r org_table = None \<and>
          \<not> slabels ?r \<and> \<not> clabels ?r \<and> \<not> translate ?r \<and>
          fields_list ?r = [''name''] \<and> ''name'' \<in> set (tfields org_table) \<and>
          py_int ''0'' = Some 0 \<and> map_of (theset ?r) (PInt 0) = None \<and>
          find_row zero_env org_table ''id'' (PInt 0)
            = Some [(''id'', PInt 0), (''name'', PStr ''Zero'')] \<and>
          map_of [(''id'', PInt 0), (''name'', PStr ''Zero'')] ''name'' = Some (PStr ''Zero'') \<and>
          ''Zero'' \<noteq> []"
    by code_simp
  have sh: "\<not> show_link ?r" by code_simp
  have t0: "trace org_rep = []" by code_simp
  note c5 = call_falsy_gives_none [OF s' l', where sl = True, THEN conjunct2, THEN mp, OF z]
  show ?thesis using c1 c2 c3 c4 c5 n t sh t0 by simp
qed

text \<open>
  The last clause of the claim as written fails: with a record of key \<open>0\<close> in the table,
  \<^verbatim>\<open>__call__\<close> on the string \<^verbatim>\<open>"0"\<close> returns its label, while the integer \<open>0\<close> gets the
  none-label.
\<close>

theorem zero_row_represented_through_string:
  "fst (S3_call zero_env org_rep (PStr ''0'') None True) = Inr (LStr ''Zero'') \<and>
   trace (snd (S3_call zero_env org_rep (PStr ''0'') None True)) = [LookupRows [PInt 0]] \<and>
   fst (S3_call zero_env org_rep (PInt 0) None True) = Inr (LStr ''-'')"
  by code_simp




text \<open>
  C6, as the code has it. For a configured instance and a hashable value whose key is
  neither cached nor in the table, \<^verbatim>\<open>_lookup\<close> answers the default label and does not
  store the key in \<^verbatim>\<open>theset\<close>; so the same request, made again on the instance as the
  first one left it, calls \<^verbatim>\<open>lookup_rows\<close> again: two requests are two fetches.
\<close>

theorem unresolved_key_is_fetched_again:
  assumes "configured r t k"
    and "hashable v"
    and "cached r v = None"
    and "\<not> has_row e t k (normalise (table r) v)"
  shows "\<exists>items1 r1 items2 r2.
           S3_lookup e r [v] None = (Inr items1, r1) \<and>
           S3_lookup e r1 [v] None = (Inr items2, r2) \<and>
           map_of items1 v = Some (default_repr r) \<and>
           map_of items2 v = Some (default_repr r) \<and>
           map_of (theset r1) (normalise (table r) v) = None \<and>
           fetch_count (trace r1) = fetch_count (trace r) + 1 \<and>
           fetch_count (trace r2) = fetch_count (trace r) + 2 \<and>
           queries r2 = queries r + 2"
proof -
  have hv: "list_all hashable [v]" using assms(2) by simp
  have nr: "\<forall>w \<in> set [v]. cached r w = None \<longrightarrow> \<not> has_row e t k (normalise (table r) w)"
    using assms(4) by simp
  have p: "\<exists>w \<in> set [v]. cached r w = None" using assms(3) by simp
  have nc: "\<not> custom_lookup r" using assms(1) by (simp add: configured_def)
  from lookup_unresolved_returns [OF assms(1) hv nr] obtain items1 r1 ks1 where
    l1: "S3_lookup e r [v] None = (Inr items1, r1)" and t1: "theset r1 = theset r"
    and f1: "fetched r r1 ks1"
    using assms(3) by auto
  have i1: "map_of items1 v = Some (default_repr r)"
    and n1: "map_of (theset r1) (normalise (table r) v) = None"
    using lookup_unresolved_key [OF assms(1) _ assms(3,4) l1] by simp_all
  have c1: "configured r1 t k" using configured_fetched [OF f1] assms(1) by simp
  have tb: "table r1 = table r" "default_repr r1 = default_repr r" "custom_lookup r1 = custom_lookup r"
    using f1 static_fields(1,5,3) [of r1 r] by (simp_all add: fetched_def)
  have ch1: "cached r1 v = None" using cached_fetched [OF f1 t1] assms(3) by simp
  have h1: "\<not> has_row e t k (normalise (table r1) v)" using assms(4) tb by simp
  have nr1: "\<forall>w \<in> set [v]. cached r1 w = None \<longrightarrow> \<not> has_row e t k (normalise (table r1) w)"
    using h1 by simp
  have p1: "\<exists>w \<in> set [v]. cached r1 w = None" using ch1 by simp
  from lookup_unresolved_returns [OF c1 hv nr1] obtain items2 r2 ks2 where
    l2: "S3_lookup e r1 [v] None = (Inr items2, r2)"
    and f2: "fetched r1 r2 ks2"
    using ch1 by auto
  have i2: "map_of items2 v = Some (default_repr r)"
    using lookup_unresolved_key [OF c1 _ ch1 h1 l2] tb by simp
  have q: "fetch_count (trace r1) = fetch_count (trace r) + 1"
    "fetch_count (trace r2) = fetch_count (trace r) + 2"
    "queries r2 = queries r + 2"
    using f1 f2 nc tb by (simp_all add: fetched_def fetch_count_def)
  show ?thesis
    by (rule exI [of _ items1], rule exI [of _ r1], rule exI [of _ items2], rule exI [of _ r2])
       (intro conjI l1 l2 i1 i2 n1 q)
qed

theorem unresolved_key_is_fetched_again_witness:
  "fetch_count (trace (snd (S3_lookup org_env
       (snd (S3_lookup org_env org_ready [PInt 999] None)) [PInt 999] None))) = 2 \<and>
   queries (snd (S3_lookup org_env
       (snd (S3_lookup org_env org_ready [PInt 999] None)) [PInt 999] None)) = 2"
proof -
  have h: "hashable (PInt 999)" by simp
  have c: "cached org_ready (PInt 999) = None" by code_simp
  have n: "\<not> has_row org_env org_table ''id'' (normalise (table org_ready) (PInt 999))"
    by code_simp
  have t: "fetch_count (trace org_ready) = 0" by code_simp
  have q: "queries org_ready = 0" by code_simp
  from unresolved_key_is_fetched_again [OF org_ready_configured h c n]
  obtain items1 r1 items2 r2 where
    "S3_lookup org_env org_ready [PInt 999] None = (Inr items1, r1)"
    "S3_lookup org_env r1 [PInt 999] None = (Inr items2, r2)"
    "fetch_count (trace r2) = fetch_count (trace org_ready) + 2"
    "queries r2 = queries org_ready + 2"
    by (elim exE conjE)
  with t q show ?thesis by simp
qed

text \<open>
  The claim as written fails: the second request for the missing key 999 fetches again.
\<close>

theorem unresolved_key_second_request_fetches:
  "trace (snd (S3_call org_env (snd (S3_call org_env org_rep (PInt 999) None True))
                 (PInt 999) None True))
     = [LookupRows [PInt 999], LookupRows [PInt 999]] \<and>
   queries (snd (S3_call org_env (snd (S3_call org_env org_rep (PInt 999) None True))
                 (PInt 999) None True)) = 2 \<and>
   queries (snd (S3_call org_env org_rep (PInt 999) None True)) = 1"
  by code_simp

text \<open>
  C7. On a configured instance, let a requested value have a key that is neither cached
  nor in the table. Whenever \<^verbatim>\<open>_lookup\<close> returns, its result maps that key, under the
  value it was last requested as, to the default label, and \<^verbatim>\<open>theset\<close> has no entry for
  the key. A missing row raises nothing: when the values are hashable and no pending key
  has a row, \<^verbatim>\<open>_lookup\<close> returns, with \<^verbatim>\<open>theset\<close> unchanged.
\<close>

theorem unresolved_key_gets_default:
  assumes "configured r t k"
    and "v \<in> set vs"
    and "cached r v = None"
    and "\<not> has_row e t k (normalise (table r) v)"
  shows "(\<forall>items r'. S3_lookup e r vs None = (Inr items, r') \<longrightarrow>
            map_of items (requested_as r vs v) = Some (default_repr r) \<and>
            map_of (theset r') (normalise (table r) v) = None) \<and>
         (list_all hashable vs \<and>
          (\<forall>w \<in> set vs. cached r w = None \<longrightarrow> \<not> has_row e t k (normalise (table r) w)) \<longrightarrow>
            (\<exists>items r'. S3_lookup e r vs None = (Inr items, r') \<and> theset r' = theset r))"
proof (intro conjI allI impI)
  fix items r'
  assume "S3_lookup e r vs None = (Inr items, r')"
  from lookup_unresolved_key [OF assms this]
  show "map_of items (requested_as r vs v) = Some (default_repr r)"
    and "map_of (theset r') (normalise (table r) v) = None"
    by simp_all
next
  assume a: "list_all hashable vs \<and>
          (\<forall>w \<in> set vs. cached r w = None \<longrightarrow> \<not> has_row e t k (normalise (table r) w))"
  from lookup_unresolved_returns [OF assms(1) conjunct1 [OF a] conjunct2 [OF a]]
  obtain items r' where "S3_lookup e r vs None = (Inr items, r')" "theset r' = theset r"
    by (elim exE conjE)
  then show "\<exists>items r'. S3_lookup e r vs None = (Inr items, r') \<and> theset r' = theset r"
    by (intro exI conjI)
qed

theorem unresolved_key_gets_default_witness:
  "map_of (projr (fst (S3_lookup org_env org_ready [PInt 1, PInt 999] None))) (PInt 999)
     = Some (LStr ''Unknown'') \<and>
   map_of (theset (snd (S3_lookup org_env org_ready [PInt 1, PInt 999] None))) (PInt 999) = None \<and>
   (\<exists>items r'. S3_lookup org_env org_ready [PInt 999, PInt 998] None = (Inr items, r'))"
proof -
  have m: "PInt 999 \<in> set [PInt 1, PInt 999]" "PInt 999 \<in> set [PInt 999, PInt 998]" by simp_all
  have c: "cached org_ready (PInt 999) = None" by code_simp
  have n: "\<not> has_row org_env org_table ''id'' (normalise (table org_ready) (PInt 999))"
    by code_simp
  have f: "fst (S3_lookup org_env org_ready [PInt 1, PInt 999] None)
           = Inr [(PInt 1, LStr ''A''), (PInt 999, LStr ''Unknown'')]"
    by code_simp
  have d: "default_repr org_ready = LStr ''Unknown''" by code_simp
  have ra: "requested_as org_ready [PInt 1, PInt 999] (PInt 999) = PInt 999" by code_simp
  have b: "list_all hashable [PInt 999, PInt 998] \<and>
           (\<forall>w \<in> set [PInt 999, PInt 998]. cached org_ready w = None \<longrightarrow>
              \<not> has_row org_env org_table ''id'' (normalise (table org_ready) w))"
    by code_simp
  have run: "S3_lookup org_env org_ready [PInt 1, PInt 999] None
        = (Inr [(PInt 1, LStr ''A''), (PInt 999, LStr ''Unknown'')],
           snd (S3_lookup org_env org_ready [PInt 1, PInt 999] None))"
    using f by (simp add: prod_eq_iff)
  note th1 = unresolved_key_gets_default [OF org_ready_configured m(1) c n]
  note th2 = unresolved_key_gets_default [OF org_ready_configured m(2) c n]
  have a1: "map_of (theset (snd (S3_lookup org_env org_ready [PInt 1, PInt 999] None))) (PInt 999)
            = None"
    using conjunct1 [OF th1, THEN spec, THEN spec, THEN mp, OF run] by simp
  have a2: "\<exists>items r'. S3_lookup org_env org_ready [PInt 999, PInt 998] None = (Inr items, r')"
    using conjunct2 [OF th2, THEN mp, OF b] by (elim exE conjE) (intro exI)
  from a1 a2 f show ?thesis by simp
qed




text \<open>
  C9. Creating an accumulator appends its value to the queue \<^verbatim>\<open>renderer.lazy\<close> of the
  shared representer. When two accumulators have been created and \<^verbatim>\<open>represent\<close> or
  \<^verbatim>\<open>render\<close> of any accumulator succeeds, \<^verbatim>\<open>bulk\<close> has been called exactly once, with the
  whole queue, and the queue is empty; a later \<^verbatim>\<open>represent\<close> or \<^verbatim>\<open>render\<close> of any
  accumulator calls \<^verbatim>\<open>bulk\<close> no more and leaves the queue empty.
\<close>

theorem lazy_accumulators_share_queue:
  assumes "lazy_init v1 r0 = (a1, r1)"
    and "lazy_init v2 r1 = (a2, r2)"
    and "lazy_represent e a r2 = (Inr out1, r3) \<or> lazy_render e a r2 = (Inr out1, r3)"
    and "lazy_represent e a' r3 = (res2, r4) \<or> lazy_render e a' r3 = (res2, r4)"
  shows "lazy r2 = lazy r0 @ [v1, v2] \<and>
         bulk_calls (trace r3) = bulk_calls (trace r0) @ [PList (lazy r0 @ [v1, v2])] \<and>
         lazy r3 = [] \<and>
         bulk_calls (trace r4) = bulk_calls (trace r3) \<and>
         lazy r4 = lazy r3"
proof -
  have q2: "lazy r2 = lazy r0 @ [v1, v2]" "trace r2 = trace r0"
    using assms(1,2) by (auto simp: lazy_init_def)
  from represent_queue [OF assms(3)] q2
  have q3: "bulk_calls (trace r3) = bulk_calls (trace r0) @ [PList (lazy r0 @ [v1, v2])]"
    "lazy r3 = []"
    by simp_all
  obtain res1 r1' where f: "flush_lazy e r3 = (res1, r1')" by (cases "flush_lazy e r3") auto
  have fe: "res1 = Inr (theset r3)" "r1' = r3" using f q3(2) by (auto simp: flush_lazy_def)
  have "bulk_calls (trace r4) = bulk_calls (trace r3) \<and> lazy r4 = lazy r3"
    using assms(4) f fe
    by (auto simp: lazy_represent_def lazy_render_def Let_def
             split: if_splits sum.splits
             dest: multiple_keeps_queue call_keeps_queue)
  with q2 q3 show ?thesis by simp
qed

theorem lazy_accumulators_share_queue_witness:
  "bulk_calls (trace (snd (lazy_render org_env (fst (lazy_init (PInt 2) (snd (lazy_init (PInt 1) org_rep))))
      (snd (lazy_represent org_env (fst (lazy_init (PInt 1) org_rep))
         (snd (lazy_init (PInt 2) (snd (lazy_init (PInt 1) org_rep)))))))))
     = [PList [PInt 1, PInt 2]] \<and>
   lazy (snd (lazy_render org_env (fst (lazy_init (PInt 2) (snd (lazy_init (PInt 1) org_rep))))
      (snd (lazy_represent org_env (fst (lazy_init (PInt 1) org_rep))
         (snd (lazy_init (PInt 2) (snd (lazy_init (PInt 1) org_rep)))))))) = [] \<and>
   fetch_count (trace (snd (lazy_render org_env (fst (lazy_init (PInt 2) (snd (lazy_init (PInt 1) org_rep))))
      (snd (lazy_represent org_env (fst (lazy_init (PInt 1) org_rep))
         (snd (lazy_init (PInt 2) (snd (lazy_init (PInt 1) org_rep))))))))) = 1"
proof -
  let ?a1 = "fst (lazy_init (PInt 1) org_rep)"
  let ?r1 = "snd (lazy_init (PInt 1) org_rep)"
  let ?a2 = "fst (lazy_init (PInt 2) ?r1)"
  let ?r2 = "snd (lazy_init (PInt 2) ?r1)"
  let ?r3 = "snd (lazy_represent org_env ?a1 ?r2)"
  let ?r4 = "snd (lazy_render org_env ?a2 ?r3)"
  have i1: "lazy_init (PInt 1) org_rep = (?a1, ?r1)" by simp
  have i2: "lazy_init (PInt 2) ?r1 = (?a2, ?r2)" by simp
  have o: "fst (lazy_represent org_env ?a1 ?r2) = Inr (LStr ''A'')" by code_simp
  have f1: "lazy_represent org_env ?a1 ?r2 = (Inr (LStr ''A''), ?r3) \<or>
            lazy_render org_env ?a1 ?r2 = (Inr (LStr ''A''), ?r3)"
    using o by (simp add: prod_eq_iff)
  have f2: "lazy_represent org_env ?a2 ?r3 = (fst (lazy_render org_env ?a2 ?r3), ?r4) \<or>
            lazy_render org_env ?a2 ?r3 = (fst (lazy_render org_env ?a2 ?r3), ?r4)"
    by simp
  have t0: "bulk_calls (trace org_rep) = []" "lazy org_rep = []" by code_simp+
  have c: "fetch_count (trace ?r4) = 1" by code_simp
  from lazy_accumulators_share_queue [OF i1 i2 f1 f2] t0 c show ?thesis by simp
qed

text \<open>
  C2. Take a representer after \<^verbatim>\<open>_setup\<close> that is not a list-type, has a table, a key field
  of that table and the default \<^verbatim>\<open>lookup_rows\<close>, joins the single field \<open>f\<close> into its
  labels, and has hierarchical paths in effect with the template \<^verbatim>\<open>%s\<close> \<open>sep\<close> \<^verbatim>\<open>%s\<close>
  (the default is \<^verbatim>\<open>"%s > %s"\<close>). Let the hierarchy of the table make \<open>B\<close> the parent of
  \<open>A\<close> and \<open>C\<close> the parent of \<open>B\<close>, with \<open>C\<close> a root, none of the three in \<^verbatim>\<open>theset\<close>, and
  let the table hold rows for them named \<open>na\<close>, \<open>nb\<close> and \<open>nc\<close>. Then \<^verbatim>\<open>__call__\<close> on \<open>A\<close>
  returns the label \<open>nc sep nb sep na\<close> (passed through \<^verbatim>\<open>link\<close> when linking is in
  effect), and it calls \<^verbatim>\<open>lookup_rows\<close> exactly once, with the keys \<open>A\<close>, \<open>B\<close> and \<open>C\<close>.
\<close>

theorem hierarchy_chain_one_fetch:
  assumes "setup_done r" and "\<not> list_type r" and "configured r t k"
    and "\<not> slabels r" and "\<not> clabels r" and "\<not> translate r"
    and "fields_list r = [f]" and "f \<in> set (tfields t)"
    and "hier_truthy (hierarchy r)" and "htemplate r = ''%s'' @ sep @ ''%s''"
    and "CHR ''%'' \<notin> set sep"
    and "new_S3Hierarchy e (tname t) = h" and "config h"
    and "parent h A = B" and "parent h B = C" and "parent h C = PNone"
    and "truthy B" and "truthy C"
    and "hashable A" and "normalise (table r) A = A" and "truthy A"
    and "map_of (theset r) A = None" and "map_of (theset r) B = None"
    and "map_of (theset r) C = None"
    and "find_row e t k A = Some ra" and "map_of ra f = Some (PStr na)" and "na \<noteq> []"
    and "find_row e t k B = Some rb" and "map_of rb f = Some (PStr nb)" and "nb \<noteq> []"
    and "find_row e t k C = Some rc" and "map_of rc f = Some (PStr nc)" and "nc \<noteq> []"
    and "3 \<le> recursion_limit e"
  shows "fst (S3_call e r A None sl)
           = Inr (if sl \<and> show_link r
                  then link e r A (LStr (nc @ sep @ nb @ sep @ na)) None
                  else LStr (nc @ sep @ nb @ sep @ na)) \<and>
         trace (snd (S3_call e r A None sl)) = trace r @ [LookupRows [A, B, C]] \<and>
         queries (snd (S3_call e r A None sl)) = queries r + 1"
proof -
  obtain items r1 where
    lk: "S3_lookup e r [A] None = (Inr items, r1)"
    and mi: "map_of items A = Some (LStr (nc @ sep @ nb @ sep @ na))"
    and ft: "fetched r r1 [A, B, C]"
    by (rule chain_lookup [OF assms(3-34)])
  have st: "static r1 = static r" using ft by (simp add: fetched_def)
  have nc: "\<not> custom_lookup r" using assms(3) by (simp add: configured_def)
  have lt: "linkto r1 = linkto r" by (rule static_fields(9) [OF st])
  have li: "\<And>l x. link e r1 A l x = link e r A l None" by (simp add: link_def lt)
  have su: "S3_setup e r = (Inr (), r)" by (rule setup_again [OF assms(1)])
  have c: "S3_call e r A None sl
           = (Inr (if sl \<and> show_link r
                   then link e r A (LStr (nc @ sep @ nb @ sep @ na)) None
                   else LStr (nc @ sep @ nb @ sep @ na)), r1)"
    using assms(2,21)
    by (simp add: S3_call_def su row_truthy_def lk mi li Let_def)
  show ?thesis unfolding c using ft nc by (simp add: fetched_def)
qed

text \<open>
  The chain 1, 2, 3 of the example table, named A, B and C: the path is \<^verbatim>\<open>C > B > A\<close>, after
  one fetch for the three keys.
\<close>

theorem hierarchy_chain_one_fetch_witness:
  "fst (S3_call org_env org_tree (PInt 1) None False) = Inr (LStr ''C > B > A'') \<and>
   trace (snd (S3_call org_env org_tree (PInt 1) None False))
     = [LookupRows [PInt 1, PInt 2, PInt 3]] \<and>
   queries (snd (S3_call org_env org_tree (PInt 1) None False)) = 1"
proof -
  have a1: "setup_done org_tree" by code_simp
  have a2: "\<not> list_type org_tree" by code_simp
  have a3: "configured org_tree org_table ''id''" by code_simp
  have a4: "\<not> slabels org_tree" by code_simp
  have a5: "\<not> clabels org_tree" by code_simp
  have a6: "\<not> translate org_tree" by code_simp
  have a7: "fields_list org_tree = [''name'']" by code_simp
  have a8: "''name'' \<in> set (tfields org_table)" by code_simp
  have a9: "hier_truthy (hierarchy org_tree)" by code_simp
  have a10: "htemplate org_tree = ''%s'' @ '' > '' @ ''%s''" by code_simp
  have a11: "CHR ''%'' \<notin> set '' > ''" by simp
  have a12: "new_S3Hierarchy org_env (tname org_table) = new_S3Hierarchy org_env (tname org_table)"
    by (rule refl)
  have a13: "config (new_S3Hierarchy org_env (tname org_table))" by code_simp
  have a14: "parent (new_S3Hierarchy org_env (tname org_table)) (PInt 1) = PInt 2" by code_simp
  have a15: "parent (new_S3Hierarchy org_env (tname org_table)) (PInt 2) = PInt 3" by code_simp
  have a16: "parent (new_S3Hierarchy org_env (tname org_table)) (PInt 3) = PNone" by code_simp
  have a17: "truthy (PInt 2)" by simp
  have a18: "truthy (PInt 3)" by simp
  have a19: "hashable (PInt 1)" by simp
  have a20: "normalise (table org_tree) (PInt 1) = PInt 1" by simp
  have a21: "truthy (PInt 1)" by simp
  have a22: "map_of (theset org_tree) (PInt 1) = None" by code_simp
  have a23: "map_of (theset org_tree) (PInt 2) = None" by code_simp
  have a24: "map_of (theset org_tree) (PInt 3) = None" by code_simp
  have a25: "find_row org_env org_table ''id'' (PInt 1)
             = Some [(''id'', PInt 1), (''name'', PStr ''A'')]" by code_simp
  have a26: "map_of [(''id'', PInt 1), (''name'', PStr ''A'')] ''name'' = Some (PStr ''A'')"
    by simp
  have a27: "''A'' \<noteq> []" by simp
  have a28: "find_row org_env org_table ''id'' (PInt 2)
             = Some [(''id'', PInt 2), (''name'', PStr ''B'')]" by code_simp
  have a29: "map_of [(''id'', PInt 2), (''name'', PStr ''B'')] ''name'' = Some (PStr ''B'')"
    by simp
  have a30: "''B'' \<noteq> []" by simp
  have a31: "find_row org_env org_table ''id'' (PInt 3)
             = Some [(''id'', PInt 3), (''name'', PStr ''C'')]" by code_simp
  have a32: "map_of [(''id'', PInt 3), (''name'', PStr ''C'')] ''name'' = Some (PStr ''C'')"
    by simp
  have a33: "''C'' \<noteq> []" by simp
  have a34: "3 \<le> recursion_limit org_env" by code_simp
  have t: "trace org_tree = []" by code_simp
  have q: "queries org_tree = 0" by code_simp
  note th = hierarchy_chain_one_fetch [OF a1 a2 a3 a4 a5 a6 a7 a8 a9 a10 a11 a12 a13 a14 a15
      a16 a17 a18 a19 a20 a21 a22 a23 a24 a25 a26 a27 a28 a29 a30 a31 a32 a33 a34,
      where sl = False]
  show ?thesis using th by (simp add: t q)
qed

text \<open>
  C3. Take a representer whose \<^verbatim>\<open>_setup\<close> succeeds, with a table, a key field of that table
  and the default \<^verbatim>\<open>lookup_rows\<close>, and a value \<open>v\<close> (\<^verbatim>\<open>None\<close>, an integer or a string) whose
  key has a row in the table; where hierarchical paths are in effect, let the hierarchy
  name parents as the table stores its keys. If \<^verbatim>\<open>__call__\<close> on \<open>v\<close> returns, then a second
  \<^verbatim>\<open>__call__\<close> on \<open>v\<close> returns the same output and leaves the instance as it is: no call
  of \<^verbatim>\<open>lookup_rows\<close> is added to the trace and the \<^verbatim>\<open>queries\<close> counter keeps its value.
\<close>

theorem call_twice_same_no_fetch:
  assumes "S3_setup e r0 = (Inr (), r)"
    and "configured r t k"
    and "hashable v"
    and "has_row e t k (normalise (table r) v)"
    and "\<forall>h x. get_hierarchy e r t = Some h \<longrightarrow>
           normalise (table r) (parent h x) = parent h x"
    and "S3_call e r0 v None sl = (Inr out, r1)"
  shows "S3_call e r1 v None sl = (Inr out, r1) \<and>
         queries (snd (S3_call e r1 v None sl)) = queries r1 \<and>
         trace (snd (S3_call e r1 v None sl)) = trace r1"
proof -
  have "S3_call e r1 v None sl = (Inr out, r1)"
  proof -
  have sd: "setup_done r" by (rule setup_done_after [OF assms(1)])
  have su: "S3_setup e r = (Inr (), r)" by (rule setup_again [OF sd])
  show ?thesis
  proof (cases "\<not> list_type r \<and> \<not> truthy v")
    case True
    have "S3_call e r0 v None sl = (Inr (none r), r)"
      using True assms(1) by (simp add: S3_call_def row_truthy_def Let_def)
    with assms(6) have o: "out = none r" "r1 = r" by auto
    have "S3_call e r v None sl = (Inr (none r), r)"
      using True su by (simp add: S3_call_def row_truthy_def Let_def)
    with o show ?thesis by simp
  next
    case False
    obtain res rr where lkr: "S3_lookup e r [v] None = (res, rr)"
      by (cases "S3_lookup e r [v] None") auto
    have al: "as_list v = [v]" by (rule as_list_hashable [OF assms(3)])
    have sn: "snd (S3_call e r0 v None sl) = rr"
      using False assms(1) su lkr al
      by (cases res)
        (auto simp: S3_call_def multiple_def row_truthy_def rows_given_def Let_def
              split: option.splits sum.splits)
    have r1: "r1 = rr" using sn assms(6) by simp
    have "\<exists>items. res = Inr items"
    proof (cases res)
      case (Inl err)
      have "fst (S3_call e r0 v None sl) = Inl err"
        using False assms(1) su lkr al Inl
        by (auto simp: S3_call_def multiple_def row_truthy_def rows_given_def Let_def)
      with assms(6) show ?thesis by simp
    next
      case (Inr items)
      then show ?thesis by simp
    qed
    then obtain items where lk1: "S3_lookup e r [v] None = (Inr items, r1)"
      using lkr r1 by auto
    from lookup_caches [OF assms(2,4,5) lk1] obtain l where
      m1: "map_of items v = Some l" and c1: "cached r1 v = Some l"
      by blast
    have st: "static r1 = static r" by (rule lookup_static [OF lk1])
    have cf1: "configured r1 t k"
      using assms(2) static_fields(1,2,3) [OF st] by (simp add: configured_def)
    from lookup_cached [OF cf1 assms(3) c1, of e] obtain items' where
      lk2: "S3_lookup e r1 [v] None = (Inr items', r1)" and m2: "map_of items' v = Some l"
      by blast
    have sd1: "setup_done r1" using sd static_fields(10) [OF st] by simp
    have su1: "S3_setup e r1 = (Inr (), r1)" by (rule setup_again [OF sd1])
    have lt1: "list_type r1 = list_type r" by (rule static_fields(7) [OF st])
    have sl1: "show_link r1 = show_link r" by (rule static_fields(8) [OF st])
    have "S3_call e r1 v None sl = S3_call e r0 v None sl"
      using False assms(1) su su1 lk1 lk2 m1 m2 al lt1 sl1
      by (auto simp: S3_call_def multiple_def row_truthy_def rows_given_def Let_def)
    with assms(6) show ?thesis by simp
  qed
  qed
  then show ?thesis by simp
qed

text \<open>
  The string \<^verbatim>\<open>"1"\<close> on the hierarchical representer of the example: both calls return
  \<^verbatim>\<open>C > B > A\<close>, and the one fetch of the first call remains the only one.
\<close>

theorem call_twice_same_no_fetch_witness:
  "S3_call org_env (snd (S3_call org_env org_tree_rep (PStr ''1'') None True)) (PStr ''1'') None True
     = (Inr (LStr ''C > B > A''), snd (S3_call org_env org_tree_rep (PStr ''1'') None True)) \<and>
   fst (S3_call org_env org_tree_rep (PStr ''1'') None True) = Inr (LStr ''C > B > A'') \<and>
   queries (snd (S3_call org_env org_tree_rep (PStr ''1'') None True)) = 1 \<and>
   queries (snd (S3_call org_env (snd (S3_call org_env org_tree_rep (PStr ''1'') None True))
                   (PStr ''1'') None True)) = 1"
proof -
  have s0: "fst (S3_setup org_env org_tree_rep) = Inr ()" by code_simp
  have s: "S3_setup org_env org_tree_rep = (Inr (), org_tree)"
    using s0 by (simp add: prod_eq_iff org_tree_def)
  have cf: "configured org_tree org_table ''id''" by code_simp
  have hv: "hashable (PStr ''1'')" by simp
  have hr: "has_row org_env org_table ''id'' (normalise (table org_tree) (PStr ''1''))"
    by code_simp
  have tb: "table org_tree = Some org_table" by code_simp
  have hp: "\<forall>h x. get_hierarchy org_env org_tree org_table = Some h \<longrightarrow>
              normalise (table org_tree) (parent h x) = parent h x"
    unfolding tb
    by (auto simp: get_hierarchy_def org_env_def parent_def Let_def is_key_def
             split: if_splits)
  have f: "fst (S3_call org_env org_tree_rep (PStr ''1'') None True) = Inr (LStr ''C > B > A'')"
    by code_simp
  have q: "queries (snd (S3_call org_env org_tree_rep (PStr ''1'') None True)) = 1"
    by code_simp
  have run: "S3_call org_env org_tree_rep (PStr ''1'') None True
             = (Inr (LStr ''C > B > A''), snd (S3_call org_env org_tree_rep (PStr ''1'') None True))"
    using f by (simp add: prod_eq_iff)
  note th = call_twice_same_no_fetch [OF s cf hv hr hp run]
  show ?thesis using th f q by simp
qed

end
